theory Spec2Isabelle
  imports Main "HOL-Library.AList"
begin

section \<open>Python strings and integers\<close>

text \<open>
  The script works on Python \<open>str\<close> values. A \<^typ>\<open>char\<close> of the model is read as the
  code point below 256 that it encodes, so a string of the model is a Python string over
  Latin-1; code points above 255 are not represented. \<open>str.strip()\<close> removes the code
  points that \<open>str.isspace()\<close> accepts; below 256 these are the twelve listed here.
\<close>

definition py_isspace :: "char \<Rightarrow> bool" where
  "py_isspace c = (of_char c \<in> {9, 10, 11, 12, 13, 28, 29, 30, 31, 32, 133, 160 :: nat})"

definition strip :: "string \<Rightarrow> string" where
  "strip s = rev (dropWhile py_isspace (rev (dropWhile py_isspace s)))"

definition is_ascii_letter :: "char \<Rightarrow> bool" where
  "is_ascii_letter c =
     (let n = of_char c :: nat in (65 \<le> n \<and> n \<le> 90) \<or> (97 \<le> n \<and> n \<le> 122))"

definition is_upper_letter :: "char \<Rightarrow> bool" where
  "is_upper_letter c = (let n = of_char c :: nat in 65 \<le> n \<and> n \<le> 90)"

definition is_digit :: "char \<Rightarrow> bool" where
  "is_digit c = (let n = of_char c :: nat in 48 \<le> n \<and> n \<le> 57)"

text \<open>
  \<open>str.upper()\<close> is only ever applied to text that the pattern \<open>[A-Za-z]+\<close> has
  accepted, where it maps \<open>a..z\<close> to \<open>A..Z\<close>; the model leaves every other character
  alone.
\<close>

definition upper_char :: "char \<Rightarrow> char" where
  "upper_char c =
     (let n = of_char c :: nat in if 97 \<le> n \<and> n \<le> 122 then char_of (n - 32) else c)"

definition upper :: "string \<Rightarrow> string" where
  "upper s = map upper_char s"

text \<open>\<open>int(s)\<close> on a string: surrounding whitespace is dropped, one sign is allowed, and
  the digits may be separated by single underscores. \<open>None\<close> stands for \<open>ValueError\<close>.
  The whitespace that \<open>int\<close> drops is narrower than that of \<open>str.strip()\<close>: of the code points
  below 256 it leaves out the four separators 28 to 31, on which \<open>int\<close> raises. The
  interpreter's bound on the number of digits of a literal is not modelled.\<close>

definition int_isspace :: "char \<Rightarrow> bool" where
  "int_isspace c = (of_char c \<in> {9, 10, 11, 12, 13, 32, 133, 160 :: nat})"

definition int_strip :: "string \<Rightarrow> string" where
  "int_strip s = rev (dropWhile int_isspace (rev (dropWhile int_isspace s)))"

definition digits_to_int :: "string \<Rightarrow> int" where
  "digits_to_int ds = fold (\<lambda>c v. v * 10 + (of_char c - 48)) ds 0"

fun int_body_ok :: "string \<Rightarrow> bool" where
  "int_body_ok [] = False"
| "int_body_ok [c] = is_digit c"
| "int_body_ok (c # d # cs) =
     (is_digit c \<and> (if d = CHR ''_'' then int_body_ok cs else int_body_ok (d # cs)))"

definition py_int :: "string \<Rightarrow> int option" where
  "py_int s =
     (let t = int_strip s;
          neg = (t \<noteq> [] \<and> hd t = CHR ''-'');
          body = (if t \<noteq> [] \<and> (hd t = CHR ''-'' \<or> hd t = CHR ''+'') then tl t else t)
      in if int_body_ok body
         then Some ((if neg then - 1 else 1) * digits_to_int (filter (\<lambda>c. c \<noteq> CHR ''_'') body))
         else None)"

text \<open>\<open>str(n)\<close> on an integer: its decimal numeral.\<close>

fun str_nat :: "nat \<Rightarrow> string" where
  "str_nat n =
     (if n < 10 then [char_of (48 + n)] else str_nat (n div 10) @ [char_of (48 + n mod 10)])"

declare str_nat.simps [simp del]

definition str_int :: "int \<Rightarrow> string" where
  "str_int i = (if i < 0 then CHR ''-'' # str_nat (nat (- i)) else str_nat (nat i))"

datatype py_error = ValueError string | TypeError | KeyError | ParseError | OSError

section \<open>Cell addresses\<close>

text \<open>
  \<open>CELL_REF_RE = ^([A-Za-z]+)(\d+)$\<close>. Both groups are greedy over disjoint character
  classes, so the match is unique; \<open>$\<close> also matches before one final newline.
\<close>

definition CELL_REF_RE_match :: "string \<Rightarrow> (string \<times> string) option" where
  "CELL_REF_RE_match s =
     (let letters = takeWhile is_ascii_letter s;
          rest = dropWhile is_ascii_letter s;
          digits = takeWhile is_digit rest;
          trailer = dropWhile is_digit rest
      in if letters \<noteq> [] \<and> digits \<noteq> [] \<and> (trailer = [] \<or> trailer = [CHR 0x0A])
         then Some (letters, digits) else None)"

definition col_letters_to_index :: "string \<Rightarrow> int" where
  "col_letters_to_index col_letters =
     fold (\<lambda>ch v. v * 26 + (of_char ch - 64)) (upper col_letters) 0"

definition parse_cell_ref :: "string \<Rightarrow> py_error + (string \<times> int)" where
  "parse_cell_ref address =
     (case CELL_REF_RE_match address of
        None \<Rightarrow> Inl (ValueError (''Invalid cell address: '' @ address))
      | Some (letters, digits) \<Rightarrow>
          (case py_int digits of
             None \<Rightarrow> Inl (ValueError (''invalid literal for int() with base 10: '' @ digits))
           | Some n \<Rightarrow> Inr (upper letters, n)))"

section \<open>The worksheet tree\<close>

text \<open>
  An \<open>ElementTree\<close> element: tag, attribute dictionary (in insertion order), text and
  children. A worksheet is parsed from the archive's bytes into a tree with no sharing,
  so an in-place mutation of a node is an update at its position.
\<close>

datatype element =
  Element (tag: string) (attrib: "(string \<times> string) list") (etext: "string option")
    (children: "element list")

definition set_children :: "element \<Rightarrow> element list \<Rightarrow> element" where
  "set_children e cs = Element (tag e) (attrib e) (etext e) cs"

definition NS_MAIN :: string where
  "NS_MAIN = ''http://schemas.openxmlformats.org/spreadsheetml/2006/main''"

definition NS_XML :: string where
  "NS_XML = ''http://www.w3.org/XML/1998/namespace''"

definition qname :: "string \<Rightarrow> string \<Rightarrow> string" where
  "qname ns local = ''{'' @ ns @ ''}'' @ local"

definition TAG_SHEETDATA :: string where "TAG_SHEETDATA = qname NS_MAIN ''sheetData''"
definition TAG_ROW :: string where "TAG_ROW = qname NS_MAIN ''row''"
definition TAG_C :: string where "TAG_C = qname NS_MAIN ''c''"
definition TAG_V :: string where "TAG_V = qname NS_MAIN ''v''"
definition TAG_IS :: string where "TAG_IS = qname NS_MAIN ''is''"
definition TAG_T :: string where "TAG_T = qname NS_MAIN ''t''"

definition attr_get :: "element \<Rightarrow> string \<Rightarrow> string \<Rightarrow> string" where
  "attr_get e k dflt = (case map_of (attrib e) k of None \<Rightarrow> dflt | Some v \<Rightarrow> v)"

text \<open>\<open>e.findall(tag)\<close>: the direct children with that tag; \<open>e.findall(".//tag")\<close>: all
  proper descendants with that tag, in document order; \<open>e.find(tag)\<close>: the first such
  direct child.\<close>

definition findall :: "element \<Rightarrow> string \<Rightarrow> element list" where
  "findall e t = filter (\<lambda>c. tag c = t) (children e)"

fun descendants :: "element \<Rightarrow> element list" where
  "descendants (Element t a x cs) = concat (map (\<lambda>c. c # descendants c) cs)"

definition findall_deep :: "element \<Rightarrow> string \<Rightarrow> element list" where
  "findall_deep e t = filter (\<lambda>c. tag c = t) (descendants e)"

definition find_child :: "element \<Rightarrow> string \<Rightarrow> element option" where
  "find_child e t = List.find (\<lambda>c. tag c = t) (children e)"

definition text_or_empty :: "element \<Rightarrow> string" where
  "text_or_empty node = (case etext node of None \<Rightarrow> [] | Some s \<Rightarrow> s)"

definition extract_cell_text :: "element \<Rightarrow> string list \<Rightarrow> string" where
  "extract_cell_text cell shared_strings =
     (let cell_type = map_of (attrib cell) ''t'' in
      if cell_type = Some ''inlineStr''
      then concat (map text_or_empty (findall_deep cell TAG_T))
      else
        (case find_child cell TAG_V of
           None \<Rightarrow> []
         | Some value_node \<Rightarrow>
             (case etext value_node of
                None \<Rightarrow> []
              | Some raw_value \<Rightarrow>
                  if cell_type = Some ''s''
                  then (case py_int raw_value of
                          None \<Rightarrow> raw_value
                        | Some idx \<Rightarrow>
                            if 0 \<le> idx \<and> idx < int (length shared_strings)
                            then shared_strings ! nat idx else raw_value)
                  else raw_value)))"

text \<open>The position of the first element a loop with an early \<open>return\<close> or \<open>break\<close>
  stops at.\<close>

fun first_index :: "('a \<Rightarrow> bool) \<Rightarrow> 'a list \<Rightarrow> nat option" where
  "first_index P [] = None"
| "first_index P (x # xs) = (if P x then Some 0 else map_option Suc (first_index P xs))"

text \<open>\<open>find_row\<close> and \<open>find_cell\<close> return a reference to a child; the model returns the
  child's position among all children of its parent.\<close>

definition find_row :: "element \<Rightarrow> int \<Rightarrow> nat option" where
  "find_row sheet_data row_num =
     first_index (\<lambda>row. tag row = TAG_ROW \<and> map_of (attrib row) ''r'' = Some (str_int row_num))
       (children sheet_data)"

definition find_cell :: "element \<Rightarrow> string \<Rightarrow> nat option" where
  "find_cell row address =
     first_index (\<lambda>cell. tag cell = TAG_C \<and> map_of (attrib cell) ''r'' = Some address)
       (children row)"

text \<open>\<open>insert_at = len(xs); for idx, x in enumerate(xs): if P(x): insert_at = idx; break\<close>\<close>

definition insert_at_index :: "('a \<Rightarrow> bool) \<Rightarrow> 'a list \<Rightarrow> nat" where
  "insert_at_index P xs = (case first_index P xs of None \<Rightarrow> length xs | Some i \<Rightarrow> i)"

text \<open>\<open>list.insert(i, x)\<close> for \<open>0 \<le> i\<close>; an index past the end appends.\<close>

definition list_insert :: "nat \<Rightarrow> 'a \<Rightarrow> 'a list \<Rightarrow> 'a list" where
  "list_insert i x xs = take i xs @ x # drop i xs"

definition existing_num :: "element \<Rightarrow> int" where
  "existing_num row = (case py_int (attr_get row ''r'' ''0'') of None \<Rightarrow> 0 | Some n \<Rightarrow> n)"

definition insert_row_sorted :: "element \<Rightarrow> int \<Rightarrow> element \<times> nat" where
  "insert_row_sorted sheet_data row_num =
     (let new_row = Element TAG_ROW [(''r'', str_int row_num)] None [];
          rows = findall sheet_data TAG_ROW;
          insert_at = insert_at_index (\<lambda>row. existing_num row > row_num) rows
      in (set_children sheet_data (list_insert insert_at new_row (children sheet_data)),
          min insert_at (length (children sheet_data))))"

definition cell_exceeds :: "int \<Rightarrow> element \<Rightarrow> bool" where
  "cell_exceeds col_idx cell =
     (case CELL_REF_RE_match (attr_get cell ''r'' []) of
        None \<Rightarrow> False
      | Some (letters, digits) \<Rightarrow> col_letters_to_index letters > col_idx)"

definition insert_cell_sorted :: "element \<Rightarrow> string \<Rightarrow> py_error + (element \<times> nat)" where
  "insert_cell_sorted row address =
     (case parse_cell_ref address of
        Inl e \<Rightarrow> Inl e
      | Inr (col_letters, _) \<Rightarrow>
          (let col_idx = col_letters_to_index col_letters;
               new_cell = Element TAG_C [(''r'', address)] None [];
               cells = findall row TAG_C;
               insert_at = insert_at_index (cell_exceeds col_idx) cells
           in Inr (set_children row (list_insert insert_at new_cell (children row)),
                   min insert_at (length (children row)))))"

definition needs_preserve :: "string \<Rightarrow> bool" where
  "needs_preserve v = (v \<noteq> [] \<and> (hd v = CHR '' '' \<or> last v = CHR '' ''))"

definition write_inline_string :: "element \<Rightarrow> string \<Rightarrow> element" where
  "write_inline_string cell v =
     Element (tag cell) (AList.update ''t'' ''inlineStr'' (attrib cell)) (etext cell)
       [Element TAG_IS [] None
          [Element TAG_T
             (if needs_preserve v then [(qname NS_XML ''space'', ''preserve'')] else [])
             (Some v) []]]"

section \<open>Change requests and the change applicator\<close>

text \<open>
  A change request is a JSON object. Its field values are modelled as the JSON scalars
  null, booleans, integers and strings; floats, arrays and objects as field values are
  not represented. \<open>py_str\<close> is \<open>str(v)\<close> and \<open>py_int_json\<close> is \<open>int(v)\<close>; the
  message of the \<open>ValueError\<close> that \<open>int\<close> raises is abbreviated (Python quotes the literal).
\<close>

datatype json = JNull | JBool bool | JInt int | JStr string

type_synonym change = "(string \<times> json) list"

definition dict_get :: "change \<Rightarrow> string \<Rightarrow> json \<Rightarrow> json" where
  "dict_get d k dflt = (case map_of d k of None \<Rightarrow> dflt | Some v \<Rightarrow> v)"

fun py_str :: "json \<Rightarrow> string" where
  "py_str JNull = ''None''"
| "py_str (JBool b) = (if b then ''True'' else ''False'')"
| "py_str (JInt i) = str_int i"
| "py_str (JStr s) = s"

fun py_int_json :: "json \<Rightarrow> py_error + int" where
  "py_int_json JNull = Inl TypeError"
| "py_int_json (JBool b) = Inr (if b then 1 else 0)"
| "py_int_json (JInt i) = Inr i"
| "py_int_json (JStr s) =
     (case py_int s of
        None \<Rightarrow> Inl (ValueError (''invalid literal for int() with base 10: '' @ s))
      | Some n \<Rightarrow> Inr n)"

record issue =
  sheetName :: json
  sourceAddress :: string
  reason :: string
  tableIndex :: int
  columnIndex :: json
  target :: string

definition target_of :: "change \<Rightarrow> string" where
  "target_of c = (if map_of c ''target'' = Some (JStr ''table'') then ''table'' else ''column'')"

definition mismatch_reason :: "string \<Rightarrow> string \<Rightarrow> string" where
  "mismatch_reason before current_value =
     ''Cell value mismatch. expected=\"'' @ before @ ''\" actual=\"'' @ current_value @ ''\"''"

type_synonym patch_state = "element \<times> nat \<times> issue list"

text \<open>The values a loop iteration reads off the change request.\<close>

definition change_address :: "change \<Rightarrow> string" where
  "change_address c = strip (py_str (dict_get c ''sourceAddress'' (JStr [])))"

definition change_before :: "change \<Rightarrow> string" where
  "change_before c = py_str (dict_get c ''beforeName'' (JStr []))"

definition change_after :: "change \<Rightarrow> string" where
  "change_after c = py_str (dict_get c ''afterName'' (JStr []))"

definition table_index_of :: "change \<Rightarrow> py_error + int" where
  "table_index_of c = py_int_json (dict_get c ''tableIndex'' (JInt (- 1)))"

definition column_index_of :: "change \<Rightarrow> py_error + json" where
  "column_index_of c =
     (case dict_get c ''columnIndex'' JNull of
        JNull \<Rightarrow> Inr JNull
      | v \<Rightarrow> map_sum id JInt (py_int_json v))"

text \<open>The current value of the addressed cell: the lookups of \<open>find_row\<close> and
  \<open>find_cell\<close>, then \<open>extract_cell_text\<close>; empty when the row or the cell is absent.\<close>

definition current_value :: "element \<Rightarrow> string list \<Rightarrow> int \<Rightarrow> string \<Rightarrow> string" where
  "current_value sheet_data shared_strings row_num address =
     (case find_row sheet_data row_num of
        None \<Rightarrow> []
      | Some i \<Rightarrow>
          (case find_cell (children sheet_data ! i) address of
             None \<Rightarrow> []
           | Some j \<Rightarrow> extract_cell_text (children (children sheet_data ! i) ! j) shared_strings))"

text \<open>One iteration of the loop of \<open>patch_sheet_xml\<close> over the state (sheet data,
  applied counter, issues). \<open>Inl\<close> is an exception that leaves the loop.\<close>

definition apply_change :: "string list \<Rightarrow> patch_state \<Rightarrow> change \<Rightarrow> py_error + patch_state" where
  "apply_change shared_strings st c =
     (case st of (sheet_data, applied, issues) \<Rightarrow>
      let address = change_address c;
          before = change_before c;
          after = change_after c
      in
      case table_index_of c of
        Inl e \<Rightarrow> Inl e
      | Inr table_index \<Rightarrow>
      (case column_index_of c of
        Inl e \<Rightarrow> Inl e
      | Inr column_index \<Rightarrow>
      let mk_issue = (\<lambda>why. \<lparr>sheetName = dict_get c ''sheetName'' (JStr []),
                              sourceAddress = address, reason = why,
                              tableIndex = table_index, columnIndex = column_index,
                              target = target_of c\<rparr>)
      in
      (case parse_cell_ref address of
        Inl (ValueError msg) \<Rightarrow> Inr (sheet_data, applied, issues @ [mk_issue msg])
      | Inl e \<Rightarrow> Inl e
      | Inr (_, row_num) \<Rightarrow>
      let row = find_row sheet_data row_num;
          existing_cell =
            (case row of None \<Rightarrow> None
             | Some i \<Rightarrow> find_cell (children sheet_data ! i) address);
          current = current_value sheet_data shared_strings row_num address
      in
      if strip current \<noteq> strip before \<and> strip current \<noteq> strip after
      then Inr (sheet_data, applied, issues @ [mk_issue (mismatch_reason before current)])
      else
        (case (case row of None \<Rightarrow> insert_row_sorted sheet_data row_num
               | Some i \<Rightarrow> (sheet_data, i)) of
          (sheet_data1, i) \<Rightarrow>
        (case (case existing_cell of
                 None \<Rightarrow> insert_cell_sorted (children sheet_data1 ! i) address
               | Some j \<Rightarrow> Inr (children sheet_data1 ! i, j)) of
          Inl e \<Rightarrow> Inl e
        | Inr (row1, j) \<Rightarrow>
            Inr (set_children sheet_data1
                   ((children sheet_data1)
                      [i := set_children row1
                              ((children row1)[j := write_inline_string (children row1 ! j) after])]),
                 applied + 1, issues))))))"

fun patch_changes :: "string list \<Rightarrow> patch_state \<Rightarrow> change list \<Rightarrow> py_error + patch_state" where
  "patch_changes shared_strings st [] = Inr st"
| "patch_changes shared_strings st (c # cs) =
     (case apply_change shared_strings st c of
        Inl e \<Rightarrow> Inl e
      | Inr st' \<Rightarrow> patch_changes shared_strings st' cs)"

text \<open>
  \<open>ET.fromstring\<close> and \<open>ET.tostring\<close> belong to the XML library; they are parameters of
  the model (\<open>None\<close> from \<open>fromstring\<close> is a parse error).
\<close>

definition patch_sheet_xml ::
  "(string \<Rightarrow> element option) \<Rightarrow> (element \<Rightarrow> string) \<Rightarrow> string \<Rightarrow> string list \<Rightarrow> change list
     \<Rightarrow> py_error + (string \<times> nat \<times> issue list)" where
  "patch_sheet_xml fromstring tostring sheet_bytes shared_strings changes =
     (case fromstring sheet_bytes of
        None \<Rightarrow> Inl ParseError
      | Some root \<Rightarrow>
          (case first_index (\<lambda>e. tag e = TAG_SHEETDATA) (children root) of
             None \<Rightarrow> Inl (ValueError ''sheetData not found'')
           | Some k \<Rightarrow>
               (case patch_changes shared_strings (children root ! k, 0, []) changes of
                  Inl e \<Rightarrow> Inl e
                | Inr (sheet_data, applied, issues) \<Rightarrow>
                    Inr (tostring (set_children root ((children root)[k := sheet_data])),
                         applied, issues))))"

section \<open>The archive and the document-level orchestrator\<close>

text \<open>
  A \<open>ZipInfo\<close> with the fields the script reads or writes, and two that the
  constructor sets and the script leaves alone (\<open>reserved\<close>, \<open>volume\<close>). An archive is
  the list of its entries in \<open>infolist()\<close> order, each with its uncompressed data.
\<close>

record zipinfo =
  filename :: string
  date_time :: "nat \<times> nat \<times> nat \<times> nat \<times> nat \<times> nat"
  compress_type :: int
  comment :: string
  create_system :: int
  create_version :: int
  extract_version :: int
  reserved :: int
  flag_bits :: int
  volume :: int
  internal_attr :: int
  external_attr :: int
  extra :: string

type_synonym archive = "(zipinfo \<times> string) list"

definition ZipInfo :: "string \<Rightarrow> nat \<times> nat \<times> nat \<times> nat \<times> nat \<times> nat \<Rightarrow> zipinfo" where
  "ZipInfo name dt =
     \<lparr>filename = name, date_time = dt, compress_type = 0, comment = [], create_system = 3,
      create_version = 20, extract_version = 20, reserved = 0, flag_bits = 0, volume = 0,
      internal_attr = 0, external_attr = 0, extra = []\<rparr>"

definition new_info_of :: "zipinfo \<Rightarrow> zipinfo" where
  "new_info_of info =
     (ZipInfo (filename info) (date_time info))
       \<lparr>compress_type := compress_type info, comment := comment info,
        create_system := create_system info, create_version := create_version info,
        extract_version := extract_version info, flag_bits := flag_bits info,
        external_attr := external_attr info, internal_attr := internal_attr info,
        extra := extra info\<rparr>"

definition namelist :: "archive \<Rightarrow> string list" where
  "namelist zin = map (\<lambda>ent. filename (fst ent)) zin"

text \<open>\<open>zin.read(name)\<close> looks the name up in the archive's name table, where a later
  entry of the same name has replaced an earlier one.\<close>

definition zin_read :: "archive \<Rightarrow> string \<Rightarrow> string option" where
  "zin_read zin name = map_of (rev (map (\<lambda>ent. (filename (fst ent), snd ent)) zin)) name"

text \<open>
  \<open>zout.writestr(zinfo, data)\<close> of the archive library, on the seekable file that the
  script writes to: the header under which the entry is found when the archive is read
  again. The library does not keep the header as it is handed in. It clears the flag bits,
  then sets bit 1 for the compression method 14 (LZMA) and bit 11 for a name that is not
  ASCII; it replaces an external attribute of 0 by the permissions \<open>0o600 << 16\<close>; and it
  raises the two version fields to what the compression method (12 is BZIP2) or an entry so
  large that it needs the 64-bit format asks for. The 64-bit extra field of such an entry
  is not modelled.
\<close>

definition writestr_info :: "zipinfo \<Rightarrow> string \<Rightarrow> zipinfo" where
  "writestr_info zinfo data =
     (let zip64 = (2147483647 * 100 < int (length data) * 105);
          min_version =
            max (if zip64 then 45 else 0)
              (if compress_type zinfo = 12 then 46
               else if compress_type zinfo = 14 then 63 else (0::int))
      in zinfo
           \<lparr>flag_bits :=
              (if compress_type zinfo = 14 then 2 else 0)
              + (if list_ex (\<lambda>c. 128 \<le> (of_char c :: nat)) (filename zinfo) then 2048 else 0),
            external_attr :=
              (if external_attr zinfo = 0 then 25165824 else external_attr zinfo),
            extract_version := max min_version (extract_version zinfo),
            create_version := max min_version (create_version zinfo)\<rparr>)"

text \<open>One iteration of the copy loop: \<open>replacements.get(name, zin.read(name))\<close> reads the
  entry before it consults the dictionary; the new header gets the fields of the old one,
  and \<open>writestr\<close> stores the data under it.\<close>

definition copy_entry :: "archive \<Rightarrow> (string \<times> string) list \<Rightarrow> zipinfo \<Rightarrow> py_error + (zipinfo \<times> string)" where
  "copy_entry zin replacements info =
     (case zin_read zin (filename info) of
        None \<Rightarrow> Inl KeyError
      | Some original \<Rightarrow>
          (let data = (case map_of replacements (filename info) of
                         None \<Rightarrow> original | Some d \<Rightarrow> d)
           in Inr (writestr_info (new_info_of info) data, data)))"

text \<open>
  The copy loop. Reading an entry or writing it to the temporary file can fail for reasons
  outside the program (a damaged entry, a full disk); \<open>fails k\<close> says whether the step
  for entry number \<open>k\<close> raises. The result is what has been written so far.
\<close>

fun copy_loop ::
  "(nat \<Rightarrow> bool) \<Rightarrow> archive \<Rightarrow> (string \<times> string) list \<Rightarrow> nat \<Rightarrow> zipinfo list \<Rightarrow> archive
     \<Rightarrow> archive \<times> (py_error + unit)" where
  "copy_loop fails zin replacements k [] out = (out, Inr ())"
| "copy_loop fails zin replacements k (info # infos) out =
     (if fails k then (out, Inl OSError)
      else (case copy_entry zin replacements info of
              Inl e \<Rightarrow> (out, Inl e)
            | Inr ent \<Rightarrow> copy_loop fails zin replacements (Suc k) infos (out @ [ent])))"

text \<open>
  The file system maps a path to the archive stored there. \<open>io_faults\<close> lists the
  operations of \<open>copy_zip_with_replacements\<close> that can raise. \<open>temp_path\<close> is the name
  \<open>NamedTemporaryFile\<close> chose.
\<close>

record io_faults =
  temp_create_fails :: bool
  open_fails :: bool
  entry_fails :: "nat \<Rightarrow> bool"
  close_fails :: bool
  replace_fails :: bool

type_synonym filesystem = "string \<rightharpoonup> archive"

text \<open>The body of the \<open>try\<close> block.\<close>

definition copy_zip_body ::
  "io_faults \<Rightarrow> string \<Rightarrow> filesystem \<Rightarrow> string \<Rightarrow> (string \<times> string) list
     \<Rightarrow> filesystem \<times> (py_error + unit)" where
  "copy_zip_body io temp_path fs workbook_path replacements =
     (case (if open_fails io then None else fs workbook_path) of
        None \<Rightarrow> (fs, Inl OSError)
      | Some zin \<Rightarrow>
          (case copy_loop (entry_fails io) zin replacements 0 (map fst zin) [] of
             (written, Inl e) \<Rightarrow> (fs(temp_path \<mapsto> written), Inl e)
           | (written, Inr _) \<Rightarrow>
               if close_fails io then (fs(temp_path \<mapsto> written), Inl OSError)
               else if replace_fails io then (fs(temp_path \<mapsto> written), Inl OSError)
               else ((fs(temp_path \<mapsto> written))(workbook_path \<mapsto> written, temp_path := None),
                     Inr ())))"

definition copy_zip_with_replacements ::
  "io_faults \<Rightarrow> string \<Rightarrow> filesystem \<Rightarrow> string \<Rightarrow> (string \<times> string) list
     \<Rightarrow> filesystem \<times> (py_error + unit)" where
  "copy_zip_with_replacements io temp_path fs workbook_path replacements =
     (if temp_create_fails io then (fs, Inl OSError)
      else
        (case copy_zip_body io temp_path (fs(temp_path \<mapsto> [])) workbook_path replacements of
           (fs', r) \<Rightarrow> ((if fs' temp_path \<noteq> None then fs'(temp_path := None) else fs'), r)))"

text \<open>
  \<open>main\<close> from the point where the archive is open: \<open>shared_strings\<close> and \<open>sheet_map\<close> are
  what \<open>get_shared_strings\<close> and \<open>build_sheet_name_to_path\<close> returned. \<open>grouped\<close> is a
  dictionary in insertion order.
\<close>

definition grouped_append ::
  "(string \<times> change list) list \<Rightarrow> string \<Rightarrow> change \<Rightarrow> (string \<times> change list) list" where
  "grouped_append grouped path c =
     (case map_of grouped path of
        None \<Rightarrow> grouped @ [(path, [c])]
      | Some cs \<Rightarrow> AList.update path (cs @ [c]) grouped)"

definition main_issue :: "change \<Rightarrow> string \<Rightarrow> py_error + issue" where
  "main_issue c why =
     (case table_index_of c of
        Inl e \<Rightarrow> Inl e
      | Inr table_index \<Rightarrow>
          Inr \<lparr>sheetName = JStr (py_str (dict_get c ''sheetName'' (JStr []))),
               sourceAddress = py_str (dict_get c ''sourceAddress'' (JStr [])),
               reason = why, tableIndex = table_index,
               columnIndex = dict_get c ''columnIndex'' JNull,
               target = target_of c\<rparr>)"

text \<open>\<open>target_path = sheet_map.get(sheet_name)\<close>, with \<open>None\<close> when the test
  \<open>not target_path\<close> succeeds (no entry, or an empty path).\<close>

definition resolve :: "(string \<times> string) list \<Rightarrow> change \<Rightarrow> string option" where
  "resolve sheet_map c =
     (case map_of sheet_map (py_str (dict_get c ''sheetName'' (JStr []))) of
        Some (p # ps) \<Rightarrow> Some (p # ps)
      | _ \<Rightarrow> None)"

fun group_loop ::
  "(string \<times> string) list \<Rightarrow> change list \<Rightarrow> (string \<times> change list) list \<Rightarrow> issue list
     \<Rightarrow> py_error + ((string \<times> change list) list \<times> issue list)" where
  "group_loop sheet_map [] grouped issues = Inr (grouped, issues)"
| "group_loop sheet_map (c # cs) grouped issues =
     (case resolve sheet_map c of
        Some target_path \<Rightarrow> group_loop sheet_map cs (grouped_append grouped target_path c) issues
      | None \<Rightarrow>
          (case main_issue c ''Worksheet not found in workbook'' of
             Inl e \<Rightarrow> Inl e
           | Inr i \<Rightarrow> group_loop sheet_map cs grouped (issues @ [i])))"

fun missing_issues :: "change list \<Rightarrow> issue list \<Rightarrow> py_error + issue list" where
  "missing_issues [] issues = Inr issues"
| "missing_issues (c # cs) issues =
     (case main_issue c ''Worksheet xml entry not found in workbook zip'' of
        Inl e \<Rightarrow> Inl e
      | Inr i \<Rightarrow> missing_issues cs (issues @ [i]))"

type_synonym main_state = "(string \<times> string) list \<times> nat \<times> issue list"

fun sheets_loop ::
  "(string \<Rightarrow> element option) \<Rightarrow> (element \<Rightarrow> string) \<Rightarrow> archive \<Rightarrow> string list
     \<Rightarrow> (string \<times> change list) list \<Rightarrow> main_state \<Rightarrow> py_error + main_state" where
  "sheets_loop fromstring tostring zin shared_strings [] st = Inr st"
| "sheets_loop fromstring tostring zin shared_strings ((sheet_path, sheet_changes) # rest) st =
     (case st of (replacements, applied_count, issues) \<Rightarrow>
      if sheet_path \<notin> set (namelist zin)
      then (case missing_issues sheet_changes issues of
              Inl e \<Rightarrow> Inl e
            | Inr issues' \<Rightarrow>
                sheets_loop fromstring tostring zin shared_strings rest
                  (replacements, applied_count, issues'))
      else (case zin_read zin sheet_path of
              None \<Rightarrow> Inl KeyError
            | Some sheet_bytes \<Rightarrow>
                (case patch_sheet_xml fromstring tostring sheet_bytes shared_strings sheet_changes of
                   Inl e \<Rightarrow> Inl e
                 | Inr (patched_xml, applied, sheet_issues) \<Rightarrow>
                     sheets_loop fromstring tostring zin shared_strings rest
                       (AList.update sheet_path patched_xml replacements,
                        applied_count + applied, issues @ sheet_issues))))"

definition main_core ::
  "(string \<Rightarrow> element option) \<Rightarrow> (element \<Rightarrow> string) \<Rightarrow> archive \<Rightarrow> string list
     \<Rightarrow> (string \<times> string) list \<Rightarrow> change list \<Rightarrow> py_error + main_state" where
  "main_core fromstring tostring zin shared_strings sheet_map changes =
     (case group_loop sheet_map changes [] [] of
        Inl e \<Rightarrow> Inl e
      | Inr (grouped, issues) \<Rightarrow>
          sheets_loop fromstring tostring zin shared_strings grouped ([], 0, issues))"

text \<open>The run on a file system: the patches are computed from the archive at
  \<open>workbook_path\<close>, and the archive is rewritten only if some worksheet was patched. The
  result is the new file system and the report (applied count, issues).\<close>

definition main_run ::
  "(string \<Rightarrow> element option) \<Rightarrow> (element \<Rightarrow> string) \<Rightarrow> io_faults \<Rightarrow> string \<Rightarrow> filesystem
     \<Rightarrow> string \<Rightarrow> string list \<Rightarrow> (string \<times> string) list \<Rightarrow> change list
     \<Rightarrow> filesystem \<times> (py_error + (nat \<times> issue list))" where
  "main_run fromstring tostring io temp_path fs workbook_path shared_strings sheet_map changes =
     (case fs workbook_path of
        None \<Rightarrow> (fs, Inl OSError)
      | Some zin \<Rightarrow>
          (case main_core fromstring tostring zin shared_strings sheet_map changes of
             Inl e \<Rightarrow> (fs, Inl e)
           | Inr (replacements, applied_count, issues) \<Rightarrow>
               if replacements = [] then (fs, Inr (applied_count, issues))
               else (case copy_zip_with_replacements io temp_path fs workbook_path replacements of
                       (fs', Inl e) \<Rightarrow> (fs', Inl e)
                     | (fs', Inr _) \<Rightarrow> (fs', Inr (applied_count, issues)))))"

section \<open>Notions used to state the properties\<close>

text \<open>The value of a letter string read as a numeral in base 26 with the digit of a
  character being its code minus 64, most significant digit first.\<close>

definition base26 :: "string \<Rightarrow> int" where
  "base26 xs = fold (\<lambda>ch v. v * 26 + (of_char ch - 64)) xs 0"

text \<open>The least index of a column name of a given length.\<close>

fun col_lo :: "nat \<Rightarrow> int" where
  "col_lo 0 = 0"
| "col_lo (Suc n) = 26 ^ n + col_lo n"

text \<open>Spreadsheet column order on upper-case names: a shorter name comes first, names of
  the same length are ordered letter by letter.\<close>

fun lex_less :: "string \<Rightarrow> string \<Rightarrow> bool" where
  "lex_less (x # xs) (y # ys) = ((of_char x :: nat) < of_char y \<or> (x = y \<and> lex_less xs ys))"
| "lex_less _ _ = False"

definition col_order_less :: "string \<Rightarrow> string \<Rightarrow> bool" where
  "col_order_less xs ys = (length xs < length ys \<or> (length xs = length ys \<and> lex_less xs ys))"

text \<open>The keys by which siblings are compared: the row number \<open>existing_num\<close> above, and
  the column index of a cell, where an address attribute that does not match the pattern
  counts as 0.\<close>

definition cell_col_index :: "element \<Rightarrow> int" where
  "cell_col_index cell =
     (case CELL_REF_RE_match (attr_get cell ''r'' []) of
        None \<Rightarrow> 0
      | Some (letters, digits) \<Rightarrow> col_letters_to_index letters)"

definition cell_ref_ok :: "element \<Rightarrow> bool" where
  "cell_ref_ok cell = (CELL_REF_RE_match (attr_get cell ''r'' []) \<noteq> None)"

definition row_num_ok :: "element \<Rightarrow> bool" where
  "row_num_ok row = (py_int (attr_get row ''r'' ''0'') \<noteq> None)"

text \<open>A change request whose \<open>tableIndex\<close> and \<open>columnIndex\<close> do not make \<open>int()\<close>
  raise.\<close>

definition int_coercible :: "change \<Rightarrow> bool" where
  "int_coercible c = (\<not> isl (table_index_of c) \<and> \<not> isl (column_index_of c))"

text \<open>The number of change requests held in the groups.\<close>

definition grouped_total :: "(string \<times> change list) list \<Rightarrow> nat" where
  "grouped_total grouped = sum_list (map (\<lambda>g. length (snd g)) grouped)"

definition grouped_get :: "(string \<times> change list) list \<Rightarrow> string \<Rightarrow> change list" where
  "grouped_get grouped path = (case map_of grouped path of None \<Rightarrow> [] | Some cs \<Rightarrow> cs)"

text \<open>What the run puts in place of the worksheet entry at \<open>path\<close> when \<open>cs\<close> are the
  change requests grouped under it: the patched markup of the entry's data.\<close>

definition patched_entry ::
  "(string \<Rightarrow> element option) \<Rightarrow> (element \<Rightarrow> string) \<Rightarrow> archive \<Rightarrow> string list \<Rightarrow> change list
     \<Rightarrow> string \<Rightarrow> string option" where
  "patched_entry fromstring tostring zin shared_strings cs path =
     (case zin_read zin path of
        None \<Rightarrow> None
      | Some sheet_bytes \<Rightarrow>
          (case patch_sheet_xml fromstring tostring sheet_bytes shared_strings cs of
             Inl e \<Rightarrow> None
           | Inr (patched_xml, applied, sheet_issues) \<Rightarrow> Some patched_xml))"

text \<open>The example of the specification: a sheet whose cell B2 holds \<open>Old\<close>, and a request
  to rename it to \<open>New\<close> at a given address.\<close>

definition example_cell :: "(string \<times> string) list \<Rightarrow> element list \<Rightarrow> element" where
  "example_cell attrs kids = Element TAG_C ((''r'', ''B2'') # attrs) None kids"

definition example_sheet :: element where
  "example_sheet =
     Element TAG_SHEETDATA [] None
       [Element TAG_ROW [(''r'', ''2'')] None
          [Element TAG_C [(''r'', ''A2'')] None [Element TAG_V [] (Some ''7'') []],
           example_cell [(''t'', ''inlineStr'')]
             [Element TAG_IS [] None [Element TAG_T [] (Some ''Old'') []]]]]"

definition example_change :: "string \<Rightarrow> string \<Rightarrow> change" where
  "example_change address after =
     [(''sheetName'', JStr ''Sheet1''), (''sourceAddress'', JStr address),
      (''beforeName'', JStr ''Old''), (''afterName'', JStr after),
      (''tableIndex'', JInt 0), (''target'', JStr ''column'')]"

text \<open>The fields of an archive entry's header that reach the rewritten archive as they
  were.\<close>

definition carried_metadata :: "zipinfo \<Rightarrow> zipinfo \<Rightarrow> bool" where
  "carried_metadata a b =
     (filename a = filename b \<and> date_time a = date_time b
      \<and> compress_type a = compress_type b \<and> comment a = comment b
      \<and> create_system a = create_system b \<and> internal_attr a = internal_attr b
      \<and> extra a = extra b)"

text \<open>The text of an inline string in the words of the specification: the texts of all
  \<open>t\<close> nodes below the cell in document order, that is, for each child from left to right
  its own text if it is a \<open>t\<close> node, followed by the texts found below it.\<close>

fun inline_text :: "element \<Rightarrow> string" where
  "inline_text (Element t a x cs) =
     concat (map (\<lambda>c. (if tag c = TAG_T then (case etext c of None \<Rightarrow> [] | Some s \<Rightarrow> s) else [])
                        @ inline_text c) cs)"

text \<open>The first child with a given tag, the way \<open>e.find(tag)\<close> meets it: no child before
  it has the tag.\<close>

definition first_child_with :: "element \<Rightarrow> string \<Rightarrow> element \<Rightarrow> bool" where
  "first_child_with e t v =
     (case dropWhile (\<lambda>x. tag x \<noteq> t) (children e) of [] \<Rightarrow> False | x # rest \<Rightarrow> x = v)"

text \<open>A sheet-data node with sorted rows, and a row with sorted cells that are followed by
  an extension element.\<close>

definition example_sorted_rows :: element where
  "example_sorted_rows =
     Element TAG_SHEETDATA [] None
       [Element TAG_ROW [(''r'', ''1'')] None [],
        Element TAG_ROW [(''r'', ''5'')] None []]"

definition example_sorted_row :: element where
  "example_sorted_row =
     Element TAG_ROW [(''r'', ''1'')] None
       [Element TAG_C [(''r'', ''A1'')] None [],
        Element TAG_C [(''r'', ''C1'')] None [],
        Element (qname NS_MAIN ''extLst'') [] None []]"

text \<open>A row with a cell whose address attribute is not an address, and a sheet with a row
  whose number attribute is not a number.\<close>

definition example_row :: element where
  "example_row =
     Element TAG_ROW [(''r'', ''1'')] None
       [Element TAG_C [(''r'', ''A1'')] None [],
        Element TAG_C [(''r'', ''??'')] None [],
        Element TAG_C [(''r'', ''C1'')] None []]"

definition example_rows :: element where
  "example_rows =
     Element TAG_SHEETDATA [] None
       [Element TAG_ROW [(''r'', ''1'')] None [],
        Element TAG_ROW [(''r'', ''x'')] None [],
        Element TAG_ROW [(''r'', ''5'')] None []]"

text \<open>A workbook archive with one worksheet entry, a file system that holds it, an XML
  library that knows this one worksheet, and a run with no input or output fault.\<close>

definition example_info :: "string \<Rightarrow> zipinfo" where
  "example_info name = (ZipInfo name (2024, 1, 31, 12, 0, 0))\<lparr>compress_type := 8\<rparr>"

definition example_archive :: archive where
  "example_archive =
     [(example_info ''xl/workbook.xml'', ''book''),
      (example_info ''xl/worksheets/sheet1.xml'', ''sheet'')]"

definition example_fs :: filesystem where
  "example_fs = Map.empty(''book.xlsx'' \<mapsto> example_archive)"

definition example_fromstring :: "string \<Rightarrow> element option" where
  "example_fromstring s =
     (if s = ''sheet'' then Some (Element ''worksheet'' [] None [example_sheet]) else None)"

definition example_tostring :: "element \<Rightarrow> string" where
  "example_tostring root = concat (map text_or_empty (findall_deep root TAG_T))"

definition example_sheet_map :: "(string \<times> string) list" where
  "example_sheet_map = [(''Sheet1'', ''xl/worksheets/sheet1.xml'')]"

definition no_faults :: io_faults where
  "no_faults =
     \<lparr>temp_create_fails = False, open_fails = False, entry_fails = (\<lambda>k. False),
      close_fails = False, replace_fails = False\<rparr>"

definition example_changes :: "change list" where
  "example_changes =
     [example_change ''B2'' ''New'',
      example_change ''A2'' ''New'',
      [(''sheetName'', JStr ''Other''), (''sourceAddress'', JStr ''A1''),
       (''tableIndex'', JStr ''3'')]]"

definition example_run :: "filesystem \<times> (py_error + (nat \<times> issue list))" where
  "example_run =
     main_run example_fromstring example_tostring no_faults ''tmp.xlsx'' example_fs ''book.xlsx''
       [] example_sheet_map [example_change ''B2'' ''New'']"

text \<open>Two requests for cell B2 of the example sheet whose index fields are not numbers.\<close>

definition example_bad_table_index :: change where
  "example_bad_table_index =
     [(''sheetName'', JStr ''Sheet1''), (''sourceAddress'', JStr ''B2''),
      (''beforeName'', JStr ''Old''), (''afterName'', JStr ''New''),
      (''tableIndex'', JStr ''x'')]"

definition example_bad_column_index :: change where
  "example_bad_column_index =
     [(''sheetName'', JStr ''Sheet1''), (''sourceAddress'', JStr ''B2''),
      (''beforeName'', JStr ''Old''), (''afterName'', JStr ''Old''),
      (''tableIndex'', JInt 0), (''columnIndex'', JStr ''x'')]"

text \<open>Cells of the three kinds the value extractor tells apart: an inline string in two
  runs, a reference to the shared-string table, and a cell with no value.\<close>

definition example_rich_cell :: element where
  "example_rich_cell =
     example_cell [(''t'', ''inlineStr'')]
       [Element TAG_IS [] None
          [Element (qname NS_MAIN ''r'') [] None [Element TAG_T [] (Some ''Ol'') []],
           Element (qname NS_MAIN ''r'') [] None [Element TAG_T [] (Some ''d'') []]]]"

definition example_shared_cell :: "string \<Rightarrow> element" where
  "example_shared_cell raw = example_cell [(''t'', ''s'')] [Element TAG_V [] (Some raw) []]"

text \<open>The example workbook with the data-descriptor flag (bit 3) set on an entry that no
  change request touches, and the run that patches its worksheet.\<close>

definition example_flagged_archive :: archive where
  "example_flagged_archive =
     [((example_info ''xl/workbook.xml'')\<lparr>flag_bits := 8\<rparr>, ''book''),
      (example_info ''xl/worksheets/sheet1.xml'', ''sheet'')]"

definition example_flagged_run :: "filesystem \<times> (py_error + (nat \<times> issue list))" where
  "example_flagged_run =
     main_run example_fromstring example_tostring no_faults ''tmp.xlsx''
       (Map.empty(''book.xlsx'' \<mapsto> example_flagged_archive)) ''book.xlsx''
       [] example_sheet_map [example_change ''B2'' ''New'']"

section \<open>Basic facts\<close>


lemma first_index_SomeD:
  "first_index P xs = Some i \<Longrightarrow> i < length xs \<and> P (xs ! i) \<and> (\<forall>j<i. \<not> P (xs ! j))"
proof (induction xs arbitrary: i)
  case Nil
  then show ?case by simp
next
  case (Cons x xs)
  show ?case
  proof (cases "P x")
    case True
    with Cons.prems show ?thesis by simp
  next
    case False
    with Cons.prems obtain k where k: "first_index P xs = Some k" "i = Suc k"
      by auto
    from Cons.IH[OF k(1)] False k(2) show ?thesis
      by (auto simp: less_Suc_eq_0_disj)
  qed
qed

lemma first_index_None_iff: "first_index P xs = None \<longleftrightarrow> (\<forall>x\<in>set xs. \<not> P x)"
  by (induction xs) auto

lemma insert_at_index_le: "insert_at_index P xs \<le> length xs"
  by (auto simp: insert_at_index_def split: option.splits dest: first_index_SomeD)

lemma int_of_char: "(of_char c :: int) = int (of_char c)"
  by (simp add: of_nat_of_char)


lemma col_letters_to_index_base26: "col_letters_to_index s = base26 (upper s)"
  by (simp add: col_letters_to_index_def base26_def)

lemma fold26_acc:
  "fold (\<lambda>ch v. v * 26 + (of_char ch - 64)) xs a
     = a * 26 ^ length xs + fold (\<lambda>ch v. v * 26 + (of_char ch - 64)) xs (0::int)"
proof (induction xs arbitrary: a)
  case Nil
  then show ?case by simp
next
  case (Cons x xs)
  show ?case
    using Cons.IH[of "a * 26 + (of_char x - 64)"] Cons.IH[of "of_char x - 64"]
    by (simp add: algebra_simps)
qed

lemma base26_Cons: "base26 (x # xs) = (of_char x - 64) * 26 ^ length xs + base26 xs"
  using fold26_acc[of xs "of_char x - 64"] by (simp add: base26_def)

lemma base26_snoc: "base26 (xs @ [c]) = base26 xs * 26 + (of_char c - 64)"
  by (simp add: base26_def)


lemma upper_letter_value:
  "is_upper_letter c \<Longrightarrow> 1 \<le> (of_char c :: int) - 64 \<and> (of_char c :: int) - 64 \<le> 26"
  by (auto simp: is_upper_letter_def Let_def int_of_char)

lemma base26_bounds:
  "\<forall>c\<in>set xs. is_upper_letter c \<Longrightarrow>
     col_lo (length xs) \<le> base26 xs \<and> base26 xs < col_lo (length xs) + 26 ^ length xs"
proof (induction xs)
  case Nil
  then show ?case by (simp add: base26_def)
next
  case (Cons x xs)
  define d where "d = (of_char x :: int) - 64"
  define P where "P = (26::int) ^ length xs"
  have d: "1 \<le> d" "d \<le> 26"
    using Cons.prems upper_letter_value[of x] by (auto simp: d_def)
  have P: "0 < P" by (simp add: P_def)
  have lo: "1 * P \<le> d * P" using d P by (intro mult_right_mono) auto
  have hi: "d * P \<le> 26 * P" using d P by (intro mult_right_mono) auto
  have IH: "col_lo (length xs) \<le> base26 xs" "base26 xs < col_lo (length xs) + P"
    using Cons by (auto simp: P_def)
  have eq: "base26 (x # xs) = d * P + base26 xs"
    by (simp add: base26_Cons d_def P_def)
  show ?case
    unfolding eq
    apply (simp add: P_def[symmetric])
    using lo hi IH by linarith
qed

lemma col_lo_mono: "m \<le> n \<Longrightarrow> col_lo m \<le> col_lo n"
  by (rule lift_Suc_mono_le) simp_all

lemma base26_length_less:
  assumes "\<forall>c\<in>set xs. is_upper_letter c" "\<forall>c\<in>set ys. is_upper_letter c"
    and "length xs < length ys"
  shows "base26 xs < base26 ys"
proof -
  have "base26 xs < col_lo (Suc (length xs))"
    using base26_bounds[OF assms(1)] by simp
  also have "\<dots> \<le> col_lo (length ys)"
    using assms(3) by (intro col_lo_mono) simp
  also have "\<dots> \<le> base26 ys"
    using base26_bounds[OF assms(2)] by simp
  finally show ?thesis .
qed


lemma base26_same_length:
  "length xs = length ys \<Longrightarrow> \<forall>c\<in>set xs. is_upper_letter c \<Longrightarrow> \<forall>c\<in>set ys. is_upper_letter c
     \<Longrightarrow> (base26 xs < base26 ys) = lex_less xs ys"
proof (induction xs ys rule: list_induct2)
  case Nil
  then show ?case by (simp add: base26_def)
next
  case (Cons x xs y ys)
  define P where "P = (26::int) ^ length xs"
  define dx where "dx = (of_char x :: int) - 64"
  define dy where "dy = (of_char y :: int) - 64"
  have P: "0 < P" by (simp add: P_def)
  have bx: "col_lo (length xs) \<le> base26 xs" "base26 xs < col_lo (length xs) + P"
    using base26_bounds[of xs] Cons.prems by (auto simp: P_def)
  have bnd: "col_lo (length xs) \<le> base26 ys" "base26 ys < col_lo (length xs) + P"
    using base26_bounds[of ys] Cons.prems Cons.hyps by (auto simp: P_def)
  have ex: "base26 (x # xs) = dx * P + base26 xs"
    by (simp add: base26_Cons dx_def P_def)
  have ey: "base26 (y # ys) = dy * P + base26 ys"
    using Cons.hyps by (simp add: base26_Cons dy_def P_def)
  have IH: "(base26 xs < base26 ys) = lex_less xs ys"
    using Cons by simp
  consider (lt) "(of_char x :: nat) < of_char y" | (eq) "x = y" | (gt) "(of_char y :: nat) < of_char x"
    by (metis linorder_neqE_nat of_char_eq_iff)
  then show ?case
  proof cases
    case lt
    then have "dx + 1 \<le> dy" by (simp add: dx_def dy_def int_of_char)
    then have "(dx + 1) * P \<le> dy * P" using P by (intro mult_right_mono) auto
    then have "dx * P + P \<le> dy * P" by (simp add: algebra_simps)
    with bx bnd lt show ?thesis unfolding ex ey by simp
  next
    case eq
    then show ?thesis unfolding ex ey using IH by (simp add: dx_def dy_def)
  next
    case gt
    then have "dy + 1 \<le> dx" by (simp add: dx_def dy_def int_of_char)
    then have "(dy + 1) * P \<le> dx * P" using P by (intro mult_right_mono) auto
    then have "dy * P + P \<le> dx * P" by (simp add: algebra_simps)
    moreover have "x \<noteq> y" using gt by auto
    ultimately show ?thesis using bx bnd gt unfolding ex ey by simp
  qed
qed

lemma base26_order:
  assumes "\<forall>c\<in>set xs. is_upper_letter c" "\<forall>c\<in>set ys. is_upper_letter c"
  shows "(base26 xs < base26 ys) = col_order_less xs ys"
proof -
  consider "length xs < length ys" | "length xs = length ys" | "length ys < length xs"
    by linarith
  then show ?thesis
  proof cases
    case 1
    then show ?thesis using base26_length_less[OF assms 1] by (simp add: col_order_less_def)
  next
    case 2
    then show ?thesis using base26_same_length[OF 2 assms] by (simp add: col_order_less_def)
  next
    case 3
    then show ?thesis using base26_length_less[OF assms(2) assms(1) 3]
      by (simp add: col_order_less_def)
  qed
qed

lemma upper_char_letter: "is_ascii_letter c \<Longrightarrow> is_upper_letter (upper_char c)"
  by (auto simp: is_ascii_letter_def is_upper_letter_def upper_char_def Let_def)

lemma upper_char_idem: "upper_char (upper_char c) = upper_char c"
  by (auto simp: upper_char_def Let_def)

lemma upper_idem: "upper (upper s) = upper s"
  by (simp add: upper_def upper_char_idem)

lemma upper_letters: "\<forall>c\<in>set s. is_ascii_letter c \<Longrightarrow> \<forall>c\<in>set (upper s). is_upper_letter c"
  by (auto simp: upper_def upper_char_letter)

lemma col_nonneg: "\<forall>c\<in>set s. is_ascii_letter c \<Longrightarrow> 0 \<le> col_letters_to_index s"
proof -
  assume a: "\<forall>c\<in>set s. is_ascii_letter c"
  have "0 \<le> col_lo n" for n by (induction n) auto
  then show ?thesis
    using base26_bounds[OF upper_letters[OF a]] 
    by (metis col_letters_to_index_base26 order_trans)
qed

lemma col_values:
  "col_letters_to_index ''A'' = 1" "col_letters_to_index ''Z'' = 26"
  "col_letters_to_index ''AA'' = 27" "col_letters_to_index ''AZ'' = 52"
  "col_letters_to_index ''BA'' = 53"
  by (simp_all add: col_letters_to_index_def upper_def upper_char_def)


lemma digit_not_special:
  "is_digit c \<Longrightarrow> c \<noteq> CHR ''_'' \<and> c \<noteq> CHR ''-'' \<and> c \<noteq> CHR ''+'' \<and> \<not> int_isspace c"
  by (auto simp: is_digit_def int_isspace_def Let_def)

lemma str_nat_digits: "str_nat n \<noteq> [] \<and> (\<forall>c\<in>set (str_nat n). is_digit c)"
proof (induction n rule: str_nat.induct)
  case (1 n)
  show ?case
  proof (cases "n < 10")
    case True
    then show ?thesis by (subst (1 2) str_nat.simps) (simp add: is_digit_def)
  next
    case False
    have "n mod 10 < 10" by simp
    then have "is_digit (char_of (48 + n mod 10))"
      unfolding is_digit_def Let_def by (simp add: mod_less)
    with 1[OF False] False show ?thesis by (subst (1 2) str_nat.simps) auto
  qed
qed

lemma digits_to_int_snoc: "digits_to_int (xs @ [c]) = digits_to_int xs * 10 + (of_char c - 48)"
  by (simp add: digits_to_int_def)

lemma digits_to_int_str_nat: "digits_to_int (str_nat n) = int n"
proof (induction n rule: str_nat.induct)
  case (1 n)
  show ?case
  proof (cases "n < 10")
    case True
    then show ?thesis
      by (subst str_nat.simps) (simp add: digits_to_int_def int_of_char)
  next
    case False
    have "n mod 10 < 10" by simp
    then have "(of_char (char_of (48 + n mod 10)) :: nat) = 48 + n mod 10"
      by simp
    moreover have "int (n div 10) * 10 + int (n mod 10) = int n"
      by presburger
    ultimately show ?thesis
      using 1[OF False] False
      by (subst str_nat.simps) (simp add: digits_to_int_snoc int_of_char)
  qed
qed

lemma int_body_ok_digits: "ds \<noteq> [] \<Longrightarrow> \<forall>c\<in>set ds. is_digit c \<Longrightarrow> int_body_ok ds"
  by (induction ds rule: int_body_ok.induct) (auto simp: digit_not_special)

lemma int_strip_id:
  assumes "s \<noteq> []" "\<not> int_isspace (hd s)" "\<not> int_isspace (last s)"
  shows "int_strip s = s"
proof -
  have a: "dropWhile int_isspace s = s"
    using assms by (simp add: dropWhile_eq_self_iff)
  have b: "dropWhile int_isspace (rev s) = rev s"
    using assms by (simp add: dropWhile_eq_self_iff hd_rev)
  show ?thesis by (simp add: int_strip_def a b)
qed

lemma py_int_digits:
  assumes "ds \<noteq> []" "\<forall>c\<in>set ds. is_digit c"
  shows "py_int ds = Some (digits_to_int ds)"
proof -
  have "is_digit (hd ds)" "is_digit (last ds)" using assms by auto
  then have s: "int_strip ds = ds" and h: "hd ds \<noteq> CHR ''-''" "hd ds \<noteq> CHR ''+''"
    using assms(1) by (auto simp: int_strip_id digit_not_special)
  have f: "filter (\<lambda>c. c \<noteq> CHR ''_'') ds = ds"
    using assms(2) by (auto simp: filter_id_conv digit_not_special)
  show ?thesis
    using s h f int_body_ok_digits[OF assms] by (simp add: py_int_def Let_def)
qed

lemma py_int_str_int: "py_int (str_int n) = Some n"
proof (cases "n < 0")
  case False
  then show ?thesis
    using py_int_digits[of "str_nat (nat n)"] str_nat_digits[of "nat n"]
    by (simp add: str_int_def digits_to_int_str_nat)
next
  case True
  let ?ds = "str_nat (nat (- n))"
  have d: "?ds \<noteq> []" "\<forall>c\<in>set ?ds. is_digit c" using str_nat_digits by auto
  then have "is_digit (last ?ds)" by auto
  then have l: "\<not> int_isspace (last (CHR ''-'' # ?ds))"
    using d(1) by (simp add: digit_not_special)
  have m: "\<not> int_isspace (hd (CHR ''-'' # ?ds))"
    by (simp add: int_isspace_def)
  have s: "int_strip (CHR ''-'' # ?ds) = CHR ''-'' # ?ds"
    using l m by (intro int_strip_id) simp_all
  have f: "filter (\<lambda>c. c \<noteq> CHR ''_'') ?ds = ?ds"
    using d(2) by (auto simp: filter_id_conv digit_not_special)
  show ?thesis
    using True s f int_body_ok_digits[OF d]
    by (simp add: py_int_def Let_def str_int_def digits_to_int_str_nat)
qed

section \<open>The column index\<close>

text \<open>
  C3. The column index of a letter sequence is its value as a numeral in base 26 with the
  digits A = 1 .. Z = 26, most significant digit first: the empty sequence has index 0 and
  appending a letter multiplies the index by 26 and adds the letter's digit, where a
  lower-case letter has the digit of its upper-case form. In particular A, Z, AA, AZ and BA
  have the indices 1, 26, 27, 52 and 53. On letter sequences the index is strictly
  monotone for the spreadsheet column order (shorter names first, names of equal length
  letter by letter), taken on the upper-case forms.
\<close>

theorem column_index_is_base26_order:
  "col_letters_to_index [] = 0
   \<and> col_letters_to_index (xs @ [c]) = col_letters_to_index xs * 26 + (of_char (upper_char c) - 64)
   \<and> (is_upper_letter c \<longrightarrow> 1 \<le> (of_char c :: int) - 64 \<and> (of_char c :: int) - 64 \<le> 26)
   \<and> (of_char CHR ''A'' :: int) - 64 = 1 \<and> (of_char CHR ''Z'' :: int) - 64 = 26
   \<and> col_letters_to_index ''A'' = 1 \<and> col_letters_to_index ''Z'' = 26
   \<and> col_letters_to_index ''AA'' = 27 \<and> col_letters_to_index ''AZ'' = 52
   \<and> col_letters_to_index ''BA'' = 53
   \<and> ((\<forall>ch\<in>set ys \<union> set zs. is_ascii_letter ch) \<longrightarrow>
        (col_letters_to_index ys < col_letters_to_index zs)
          = col_order_less (upper ys) (upper zs))"
proof -
  have 1: "col_letters_to_index (xs @ [c])
        = col_letters_to_index xs * 26 + (of_char (upper_char c) - 64)"
    by (simp add: col_letters_to_index_base26 upper_def base26_snoc)
  have 2: "(\<forall>ch\<in>set ys \<union> set zs. is_ascii_letter ch) \<longrightarrow>
        (col_letters_to_index ys < col_letters_to_index zs)
          = col_order_less (upper ys) (upper zs)"
    using base26_order[of "upper ys" "upper zs"] upper_letters[of ys] upper_letters[of zs]
    by (auto simp: col_letters_to_index_base26)
  have 3: "col_letters_to_index [] = 0"
    by (simp add: col_letters_to_index_def upper_def)
  show ?thesis
    using 1 2 3 upper_letter_value[of c] col_values by simp
qed

theorem column_index_is_base26_order_witness:
  "is_upper_letter CHR ''Q'' \<and> (of_char CHR ''Q'' :: int) - 64 = 17
   \<and> list_all is_ascii_letter (''az'' @ ''BA'')
   \<and> col_letters_to_index ''az'' < col_letters_to_index ''BA''
   \<and> col_order_less (upper ''az'') (upper ''BA'')"
  using column_index_is_base26_order[of "[]" "CHR ''Q''" "''az''" "''BA''"]
  by (simp add: is_upper_letter_def is_ascii_letter_def col_letters_to_index_def upper_def
      upper_char_def col_order_less_def)

section \<open>The value extractor\<close>

lemma text_or_empty_fun:
  "text_or_empty = (\<lambda>c. case etext c of None \<Rightarrow> [] | Some s \<Rightarrow> s)"
  by (rule ext) (simp add: text_or_empty_def)

lemma inline_text_findall_deep:
  "concat (map text_or_empty (findall_deep e TAG_T)) = inline_text e"
proof (induction e)
  case (Element t a x cs)
  have "concat (map text_or_empty
            (filter (\<lambda>c. tag c = TAG_T) (concat (map (\<lambda>c. c # descendants c) ds))))
        = concat (map (\<lambda>c. (if tag c = TAG_T then text_or_empty c else []) @ inline_text c) ds)"
    if "set ds \<subseteq> set cs" for ds
    using that
  proof (induction ds)
    case Nil
    show ?case by simp
  next
    case (Cons d ds)
    then have "d \<in> set cs" by simp
    then have "concat (map text_or_empty (findall_deep d TAG_T)) = inline_text d"
      by (rule Element)
    then have ih: "concat (map text_or_empty (filter (\<lambda>c. tag c = TAG_T) (descendants d)))
        = inline_text d"
      by (simp only: findall_deep_def)
    from Cons have rest: "concat (map text_or_empty
            (filter (\<lambda>c. tag c = TAG_T) (concat (map (\<lambda>c. c # descendants c) ds))))
        = concat (map (\<lambda>c. (if tag c = TAG_T then text_or_empty c else []) @ inline_text c) ds)"
      by simp
    show ?case by (simp add: ih rest)
  qed
  from this[of cs] have "concat (map text_or_empty (findall_deep (Element t a x cs) TAG_T))
      = concat (map (\<lambda>c. (if tag c = TAG_T then text_or_empty c else []) @ inline_text c) cs)"
    by (simp add: findall_deep_def)
  then show ?case by (simp add: text_or_empty_fun cong: if_cong)
qed

lemma find_child_first:
  assumes "first_child_with e t v"
  shows "find_child e t = Some v"
proof -
  from assms obtain rest where dw: "dropWhile (\<lambda>x. tag x \<noteq> t) (children e) = v # rest"
    by (auto simp: first_child_with_def split: list.splits)
  have c: "(Not \<circ> (\<lambda>c. tag c = t)) = (\<lambda>x. tag x \<noteq> t)"
    by (simp add: fun_eq_iff)
  show ?thesis
    unfolding find_child_def find_dropWhile c dw by simp
qed

lemma find_child_none:
  "list_all (\<lambda>x. tag x \<noteq> t) (children e) \<Longrightarrow> find_child e t = None"
  by (simp add: find_child_def find_None_iff list_all_iff)

text \<open>
  C9. For every cell node and shared-string table, \<open>extract_cell_text\<close> returns: for a
  cell typed \<open>inlineStr\<close>, the texts of all \<open>t\<close> nodes below the cell, concatenated in
  document order (\<open>inline_text\<close>, a node with no text counting as empty); otherwise, with
  \<open>v\<close> the first child that is a value node and \<open>raw\<close> its text: for a cell typed \<open>s\<close>,
  the table's entry at the index that \<open>raw\<close> reads as when that index is within the table
  (so for the decimal numeral of such an index), and \<open>raw\<close> itself when the index is
  outside the table or \<open>raw\<close> does not read as an integer; for a cell of any other type,
  \<open>raw\<close> unchanged; and the empty string when the cell has no value node, or its value
  node has no text.
\<close>

theorem extract_cell_text_cases:
  "(map_of (attrib cell) ''t'' = Some ''inlineStr'' \<longrightarrow>
      extract_cell_text cell ss = inline_text cell)
   \<and> (map_of (attrib cell) ''t'' = Some ''s'' \<and> first_child_with cell TAG_V v
        \<and> etext v = Some raw \<and> py_int raw = Some idx \<and> 0 \<le> idx \<and> idx < int (length ss) \<longrightarrow>
      extract_cell_text cell ss = ss ! nat idx)
   \<and> (map_of (attrib cell) ''t'' = Some ''s'' \<and> first_child_with cell TAG_V v
        \<and> etext v = Some (str_int idx) \<and> 0 \<le> idx \<and> idx < int (length ss) \<longrightarrow>
      extract_cell_text cell ss = ss ! nat idx)
   \<and> (map_of (attrib cell) ''t'' = Some ''s'' \<and> first_child_with cell TAG_V v
        \<and> etext v = Some raw \<and> py_int raw = Some idx \<and> \<not> (0 \<le> idx \<and> idx < int (length ss)) \<longrightarrow>
      extract_cell_text cell ss = raw)
   \<and> (map_of (attrib cell) ''t'' = Some ''s'' \<and> first_child_with cell TAG_V v
        \<and> etext v = Some raw \<and> py_int raw = None \<longrightarrow>
      extract_cell_text cell ss = raw)
   \<and> (map_of (attrib cell) ''t'' \<noteq> Some ''inlineStr'' \<and> map_of (attrib cell) ''t'' \<noteq> Some ''s''
        \<and> first_child_with cell TAG_V v \<and> etext v = Some raw \<longrightarrow>
      extract_cell_text cell ss = raw)
   \<and> (map_of (attrib cell) ''t'' \<noteq> Some ''inlineStr''
        \<and> list_all (\<lambda>x. tag x \<noteq> TAG_V) (children cell) \<longrightarrow>
      extract_cell_text cell ss = [])
   \<and> (map_of (attrib cell) ''t'' \<noteq> Some ''inlineStr'' \<and> first_child_with cell TAG_V v
        \<and> etext v = None \<longrightarrow>
      extract_cell_text cell ss = [])"
proof -
  have inl: "map_of (attrib cell) ''t'' = Some ''inlineStr'' \<longrightarrow>
      extract_cell_text cell ss = inline_text cell"
    by (simp add: extract_cell_text_def Let_def inline_text_findall_deep)
  have val: "extract_cell_text cell ss =
      (case etext v of
         None \<Rightarrow> []
       | Some raw \<Rightarrow>
           if map_of (attrib cell) ''t'' = Some ''s''
           then (case py_int raw of
                   None \<Rightarrow> raw
                 | Some idx \<Rightarrow> if 0 \<le> idx \<and> idx < int (length ss) then ss ! nat idx else raw)
           else raw)"
    if "map_of (attrib cell) ''t'' \<noteq> Some ''inlineStr''" "first_child_with cell TAG_V v"
    using that(1) find_child_first[OF that(2)] by (simp add: extract_cell_text_def Let_def)
  have none: "map_of (attrib cell) ''t'' \<noteq> Some ''inlineStr''
        \<and> list_all (\<lambda>x. tag x \<noteq> TAG_V) (children cell) \<longrightarrow>
      extract_cell_text cell ss = []"
    using find_child_none[of TAG_V cell] by (auto simp: extract_cell_text_def Let_def)
  have s: "map_of (attrib cell) ''t'' = Some ''s'' \<Longrightarrow> map_of (attrib cell) ''t'' \<noteq> Some ''inlineStr''"
    by simp
  show ?thesis
    using inl none val s py_int_str_int[of idx] by (intro conjI impI) auto
qed

theorem extract_cell_text_cases_witness:
  "map_of (attrib example_rich_cell) ''t'' = Some ''inlineStr''
   \<and> inline_text example_rich_cell = ''Old''
   \<and> extract_cell_text example_rich_cell [] = ''Old''
   \<and> map_of (attrib (example_shared_cell ''1'')) ''t'' = Some ''s''
   \<and> first_child_with (example_shared_cell ''1'') TAG_V (Element TAG_V [] (Some ''1'') [])
   \<and> py_int ''1'' = Some 1
   \<and> extract_cell_text (example_shared_cell ''1'') [''zero'', ''one''] = ''one''
   \<and> first_child_with (example_shared_cell ''7'') TAG_V (Element TAG_V [] (Some ''7'') [])
   \<and> py_int ''7'' = Some 7
   \<and> extract_cell_text (example_shared_cell ''7'') [''zero'', ''one''] = ''7''
   \<and> list_all (\<lambda>x. tag x \<noteq> TAG_V) (children (example_cell [] []))
   \<and> extract_cell_text (example_cell [] []) [''zero'', ''one''] = []"
proof -
  let ?ss = "[''zero'', ''one'']"
  let ?v1 = "Element TAG_V [] (Some ''1'') []"
  let ?v7 = "Element TAG_V [] (Some ''7'') []"
  have r1: "map_of (attrib example_rich_cell) ''t'' = Some ''inlineStr''" by code_simp
  have r2: "inline_text example_rich_cell = ''Old''" by code_simp
  have s1: "map_of (attrib (example_shared_cell ''1'')) ''t'' = Some ''s''" by code_simp
  have s2: "first_child_with (example_shared_cell ''1'') TAG_V ?v1" by code_simp
  have s3: "etext ?v1 = Some ''1''" by simp
  have s4: "py_int ''1'' = Some 1" by code_simp
  have s5: "(0::int) \<le> 1 \<and> (1::int) < int (length ?ss)" by simp
  have t1: "map_of (attrib (example_shared_cell ''7'')) ''t'' = Some ''s''" by code_simp
  have t2: "first_child_with (example_shared_cell ''7'') TAG_V ?v7" by code_simp
  have t3: "etext ?v7 = Some ''7''" by simp
  have t4: "py_int ''7'' = Some 7" by code_simp
  have t5: "\<not> ((0::int) \<le> 7 \<and> (7::int) < int (length ?ss))" by simp
  have n1: "map_of (attrib (example_cell [] [])) ''t'' \<noteq> Some ''inlineStr''" by code_simp
  have n2: "list_all (\<lambda>x. tag x \<noteq> TAG_V) (children (example_cell [] []))" by code_simp
  from extract_cell_text_cases[where cell = example_rich_cell and ss = "[]"] r1
  have "extract_cell_text example_rich_cell [] = inline_text example_rich_cell" by blast
  then have a: "extract_cell_text example_rich_cell [] = ''Old''" by (simp only: r2)
  from extract_cell_text_cases[where cell = "example_shared_cell ''1''" and ss = ?ss and v = ?v1
      and raw = "''1''" and idx = 1] s1 s2 s3 s4 s5
  have "extract_cell_text (example_shared_cell ''1'') ?ss = ?ss ! nat 1" by blast
  then have b: "extract_cell_text (example_shared_cell ''1'') ?ss = ''one''" by simp
  from extract_cell_text_cases[where cell = "example_shared_cell ''7''" and ss = ?ss and v = ?v7
      and raw = "''7''" and idx = 7] t1 t2 t3 t4 t5
  have c: "extract_cell_text (example_shared_cell ''7'') ?ss = ''7''" by blast
  from extract_cell_text_cases[where cell = "example_cell [] []" and ss = ?ss] n1 n2
  have d: "extract_cell_text (example_cell [] []) ?ss = []" by blast
  from r1 r2 a s1 s2 s4 b t2 t4 c n2 d show ?thesis by blast
qed

section \<open>Sorted insertion\<close>

lemma insert_at_index_Nil: "insert_at_index P [] = 0"
  by (simp add: insert_at_index_def)

lemma insert_at_index_Cons:
  "insert_at_index P (x # xs) = (if P x then 0 else Suc (insert_at_index P xs))"
  by (simp add: insert_at_index_def split: option.splits)

lemma list_insert_0: "list_insert 0 x ys = x # ys"
  by (simp add: list_insert_def)

lemma list_insert_Suc: "list_insert (Suc i) x (y # ys) = y # list_insert i x ys"
  by (simp add: list_insert_def)

lemma set_list_insert: "set (list_insert i x xs) = insert x (set xs)"
proof -
  have "set (take i xs) \<union> set (drop i xs) = set xs"
    by (metis append_take_drop_id set_append)
  then show ?thesis by (auto simp: list_insert_def)
qed

lemma map_list_insert: "map f (list_insert i x xs) = list_insert i (f x) (map f xs)"
  by (simp add: list_insert_def take_map drop_map)

lemma list_insert_append:
  "i \<le> length xs \<Longrightarrow> list_insert i x (xs @ ys) = list_insert i x xs @ ys"
  by (simp add: list_insert_def)

lemma first_index_map: "first_index P (map f xs) = first_index (\<lambda>x. P (f x)) xs"
  by (induction xs) auto

lemma insert_at_index_map: "insert_at_index P (map f xs) = insert_at_index (\<lambda>x. P (f x)) xs"
  by (simp add: insert_at_index_def first_index_map split: option.splits)

lemma insert_at_index_cong:
  "(\<And>x. x \<in> set xs \<Longrightarrow> P x = Q x) \<Longrightarrow> insert_at_index P xs = insert_at_index Q xs"
  by (induction xs) (auto simp: insert_at_index_Cons insert_at_index_Nil)

lemma sorted_insert_int:
  "sorted ys \<Longrightarrow> sorted (list_insert (insert_at_index (\<lambda>y. t < y) ys) (t::int) ys)"
proof (induction ys)
  case Nil
  then show ?case by (simp add: insert_at_index_Nil list_insert_0)
next
  case (Cons y ys)
  show ?case
  proof (cases "t < y")
    case True
    with Cons.prems show ?thesis
      by (auto simp: insert_at_index_Cons list_insert_0)
  next
    case False
    with Cons show ?thesis
      by (auto simp: insert_at_index_Cons list_insert_Suc set_list_insert)
  qed
qed

lemma sorted_insert_key:
  assumes "sorted (map k xs)" "k new = (t::int)"
  shows "sorted (map k (list_insert (insert_at_index (\<lambda>x. t < k x) xs) new xs))"
  using sorted_insert_int[OF assms(1), of t] assms(2)
  by (simp add: map_list_insert insert_at_index_map)

lemma insert_at_index_props:
  "(\<forall>j < insert_at_index P xs. \<not> P (xs ! j))
   \<and> (insert_at_index P xs < length xs \<longrightarrow> P (xs ! insert_at_index P xs))"
proof (cases "first_index P xs")
  case None
  then have "\<forall>x\<in>set xs. \<not> P x" by (simp add: first_index_None_iff)
  then show ?thesis using None by (simp add: insert_at_index_def)
next
  case (Some i)
  from first_index_SomeD[OF Some] Some show ?thesis by (simp add: insert_at_index_def)
qed

lemma children_set_children: "children (set_children e cs) = cs"
  by (simp add: set_children_def)

lemma findall_prefix:
  "children e = xs @ ys \<Longrightarrow> \<forall>x\<in>set xs. tag x = t \<Longrightarrow> \<forall>y\<in>set ys. tag y \<noteq> t
     \<Longrightarrow> findall e t = xs"
  by (simp add: findall_def)

lemma findall_length: "length (findall e t) \<le> length (children e)"
  by (simp add: findall_def)

lemma existing_num_new_row: "existing_num (Element TAG_ROW [(''r'', str_int n)] None []) = n"
  by (simp add: existing_num_def attr_get_def py_int_str_int)

lemma parse_cell_ref_InrD:
  "parse_cell_ref a = Inr (cl, rn) \<Longrightarrow>
     \<exists>l d. CELL_REF_RE_match a = Some (l, d) \<and> cl = upper l \<and> py_int d = Some rn"
  by (auto simp: parse_cell_ref_def split: option.splits)

lemma parse_cell_ref_InlD: "parse_cell_ref a = Inl e \<Longrightarrow> \<exists>m. e = ValueError m"
  by (auto simp: parse_cell_ref_def split: option.splits)

lemma CELL_REF_RE_match_letters:
  "CELL_REF_RE_match s = Some (l, d) \<Longrightarrow> \<forall>c\<in>set l. is_ascii_letter c"
  by (auto simp: CELL_REF_RE_match_def Let_def split: if_splits dest: set_takeWhileD)

lemma col_upper: "col_letters_to_index (upper l) = col_letters_to_index l"
  by (simp add: col_letters_to_index_def upper_idem)

lemma cell_exceeds_iff: "0 \<le> t \<Longrightarrow> cell_exceeds t cell = (t < cell_col_index cell)"
  by (auto simp: cell_exceeds_def cell_col_index_def split: option.splits)

lemma insert_cell_sorted_eq:
  assumes "parse_cell_ref address = Inr (cl, rn)"
  shows "insert_cell_sorted row address =
     Inr (set_children row
            (list_insert (insert_at_index (\<lambda>c. col_letters_to_index cl < cell_col_index c)
                            (findall row TAG_C))
               (Element TAG_C [(''r'', address)] None []) (children row)),
          min (insert_at_index (\<lambda>c. col_letters_to_index cl < cell_col_index c)
                 (findall row TAG_C)) (length (children row)))"
    and "0 \<le> col_letters_to_index cl"
    and "cell_col_index (Element TAG_C [(''r'', address)] None []) = col_letters_to_index cl"
proof -
  from parse_cell_ref_InrD[OF assms] obtain l d where
    m: "CELL_REF_RE_match address = Some (l, d)" and cl: "cl = upper l" by blast
  show nn: "0 \<le> col_letters_to_index cl"
    using col_nonneg[OF CELL_REF_RE_match_letters[OF m]] by (simp add: cl col_upper)
  have "cell_exceeds (col_letters_to_index cl) = (\<lambda>c. col_letters_to_index cl < cell_col_index c)"
    using cell_exceeds_iff[OF nn] by auto
  then show "insert_cell_sorted row address =
     Inr (set_children row
            (list_insert (insert_at_index (\<lambda>c. col_letters_to_index cl < cell_col_index c)
                            (findall row TAG_C))
               (Element TAG_C [(''r'', address)] None []) (children row)),
          min (insert_at_index (\<lambda>c. col_letters_to_index cl < cell_col_index c)
                 (findall row TAG_C)) (length (children row)))"
    using assms by (simp add: insert_cell_sorted_def Let_def)
  show "cell_col_index (Element TAG_C [(''r'', address)] None []) = col_letters_to_index cl"
    using m by (simp add: cell_col_index_def attr_get_def cl col_upper)
qed

text \<open>Insertion among the children of one kind that stand first under their parent, as
  the rows of a sheet-data node and the cells of a row do.\<close>

lemma sorted_insertion:
  assumes ch: "kids = xs @ ys" and srt: "sorted (map key xs)" and new: "key new = (t::int)"
  shows "\<exists>k\<le>length xs.
           k = insert_at_index (\<lambda>x. t < key x) xs
           \<and> min k (length kids) = k
           \<and> list_insert k new kids = take k xs @ new # drop k xs @ ys
           \<and> (\<forall>j<k. key (xs ! j) \<le> t)
           \<and> (k < length xs \<longrightarrow> t < key (xs ! k))
           \<and> sorted (map key (take k xs @ new # drop k xs))"
proof -
  let ?k = "insert_at_index (\<lambda>x. t < key x) xs"
  have le: "?k \<le> length xs" by (rule insert_at_index_le)
  have m: "min ?k (length kids) = ?k" using le by (simp add: ch)
  have li: "list_insert ?k new kids = take ?k xs @ new # drop ?k xs @ ys"
    using le by (simp add: ch list_insert_def)
  have p1: "\<forall>j<?k. key (xs ! j) \<le> t"
    using insert_at_index_props[of "\<lambda>x. t < key x" xs] by (auto simp: not_less)
  have p2: "?k < length xs \<longrightarrow> t < key (xs ! ?k)"
    using insert_at_index_props[of "\<lambda>x. t < key x" xs] by auto
  have s: "sorted (map key (take ?k xs @ new # drop ?k xs))"
    using sorted_insert_key[OF srt new] by (simp add: list_insert_def)
  from le m li p1 p2 s show ?thesis by blast
qed

text \<open>
  C2. Take a sheet-data node whose rows stand first among its children and are sorted
  ascending by row number, and a row whose cells stand first among its children and are
  sorted ascending by column index; a sibling whose attribute is malformed counts with the
  number 0 that the comparison gives it. Then \<open>insert_row_sorted\<close> and, for an address that
  parses, \<open>insert_cell_sorted\<close> put the new node at a position \<open>k\<close>: the siblings before and
  after \<open>k\<close> keep their order and content, every sibling before \<open>k\<close> has a number (index) not
  above the target, the sibling at \<open>k\<close>, if there is one, is the first whose number (index)
  exceeds the target, the new node is appended after the last row (cell) when none does,
  and the rows (cells) of the result are again sorted ascending.
\<close>

theorem sorted_insertion_keeps_order:
  assumes "children sheet_data = rows @ others"
    and "\<forall>r\<in>set rows. tag r = TAG_ROW" and "\<forall>x\<in>set others. tag x \<noteq> TAG_ROW"
    and "sorted (map existing_num rows)"
    and "children row = cells @ rest"
    and "\<forall>c\<in>set cells. tag c = TAG_C" and "\<forall>x\<in>set rest. tag x \<noteq> TAG_C"
    and "sorted (map cell_col_index cells)"
    and "parse_cell_ref address = Inr (col_letters, rn)"
  shows
    "(\<exists>k\<le>length rows.
        insert_row_sorted sheet_data row_num =
          (set_children sheet_data
             (take k rows @ Element TAG_ROW [(''r'', str_int row_num)] None [] # drop k rows
                @ others),
           k)
        \<and> (\<forall>j<k. existing_num (rows ! j) \<le> row_num)
        \<and> (k < length rows \<longrightarrow> row_num < existing_num (rows ! k))
        \<and> findall (fst (insert_row_sorted sheet_data row_num)) TAG_ROW =
            take k rows @ Element TAG_ROW [(''r'', str_int row_num)] None [] # drop k rows
        \<and> sorted (map existing_num (findall (fst (insert_row_sorted sheet_data row_num)) TAG_ROW)))
     \<and> (\<exists>k\<le>length cells.
        insert_cell_sorted row address =
          Inr (set_children row
                 (take k cells @ Element TAG_C [(''r'', address)] None [] # drop k cells @ rest),
               k)
        \<and> (\<forall>j<k. cell_col_index (cells ! j) \<le> col_letters_to_index col_letters)
        \<and> (k < length cells \<longrightarrow> col_letters_to_index col_letters < cell_col_index (cells ! k))
        \<and> findall (fst (projr (insert_cell_sorted row address))) TAG_C =
            take k cells @ Element TAG_C [(''r'', address)] None [] # drop k cells
        \<and> sorted (map cell_col_index (findall (fst (projr (insert_cell_sorted row address))) TAG_C)))"
proof (intro conjI)
  let ?new = "Element TAG_ROW [(''r'', str_int row_num)] None []"
  from sorted_insertion[OF assms(1) assms(4) existing_num_new_row[of row_num]]
  obtain k where k: "k \<le> length rows"
    "k = insert_at_index (\<lambda>x. row_num < existing_num x) rows"
    "min k (length (children sheet_data)) = k"
    "list_insert k ?new (children sheet_data) = take k rows @ ?new # drop k rows @ others"
    "\<forall>j<k. existing_num (rows ! j) \<le> row_num"
    "k < length rows \<longrightarrow> row_num < existing_num (rows ! k)"
    "sorted (map existing_num (take k rows @ ?new # drop k rows))"
    by blast
  have fa: "findall sheet_data TAG_ROW = rows"
    by (rule findall_prefix[OF assms(1,2,3)])
  have eq: "insert_row_sorted sheet_data row_num =
      (set_children sheet_data (take k rows @ ?new # drop k rows @ others), k)"
    using k(2,3,4) by (simp add: insert_row_sorted_def Let_def fa)
  have tg: "\<forall>x\<in>set (take k rows @ ?new # drop k rows). tag x = TAG_ROW"
    using assms(2) by (auto dest: in_set_takeD in_set_dropD)
  have fr: "findall (fst (insert_row_sorted sheet_data row_num)) TAG_ROW
      = take k rows @ ?new # drop k rows"
    by (rule findall_prefix[OF _ tg assms(3)]) (simp add: eq children_set_children)
  show "\<exists>k\<le>length rows.
        insert_row_sorted sheet_data row_num =
          (set_children sheet_data (take k rows @ ?new # drop k rows @ others), k)
        \<and> (\<forall>j<k. existing_num (rows ! j) \<le> row_num)
        \<and> (k < length rows \<longrightarrow> row_num < existing_num (rows ! k))
        \<and> findall (fst (insert_row_sorted sheet_data row_num)) TAG_ROW =
            take k rows @ ?new # drop k rows
        \<and> sorted (map existing_num (findall (fst (insert_row_sorted sheet_data row_num)) TAG_ROW))"
    using k(1,5,6,7) eq fr by (intro exI[of _ k]) simp
next
  let ?new = "Element TAG_C [(''r'', address)] None []"
  let ?t = "col_letters_to_index col_letters"
  note ics = insert_cell_sorted_eq[OF assms(9)]
  from sorted_insertion[OF assms(5) assms(8) ics(3)]
  obtain k where k: "k \<le> length cells"
    "k = insert_at_index (\<lambda>x. ?t < cell_col_index x) cells"
    "min k (length (children row)) = k"
    "list_insert k ?new (children row) = take k cells @ ?new # drop k cells @ rest"
    "\<forall>j<k. cell_col_index (cells ! j) \<le> ?t"
    "k < length cells \<longrightarrow> ?t < cell_col_index (cells ! k)"
    "sorted (map cell_col_index (take k cells @ ?new # drop k cells))"
    by blast
  have fa: "findall row TAG_C = cells"
    by (rule findall_prefix[OF assms(5,6,7)])
  have eq: "insert_cell_sorted row address =
      Inr (set_children row (take k cells @ ?new # drop k cells @ rest), k)"
    using k(2,3,4) by (simp add: ics(1) fa)
  have tg: "\<forall>x\<in>set (take k cells @ ?new # drop k cells). tag x = TAG_C"
    using assms(6) by (auto dest: in_set_takeD in_set_dropD)
  have fr: "findall (fst (projr (insert_cell_sorted row address))) TAG_C
      = take k cells @ ?new # drop k cells"
    by (rule findall_prefix[OF _ tg assms(7)]) (simp add: eq children_set_children)
  show "\<exists>k\<le>length cells.
        insert_cell_sorted row address =
          Inr (set_children row (take k cells @ ?new # drop k cells @ rest), k)
        \<and> (\<forall>j<k. cell_col_index (cells ! j) \<le> ?t)
        \<and> (k < length cells \<longrightarrow> ?t < cell_col_index (cells ! k))
        \<and> findall (fst (projr (insert_cell_sorted row address))) TAG_C =
            take k cells @ ?new # drop k cells
        \<and> sorted (map cell_col_index (findall (fst (projr (insert_cell_sorted row address))) TAG_C))"
    using k(1,5,6,7) eq fr by (intro exI[of _ k]) simp
qed

theorem sorted_insertion_keeps_order_witness:
  "children example_sorted_rows = children example_sorted_rows @ []
   \<and> list_all (\<lambda>r. tag r = TAG_ROW) (children example_sorted_rows)
   \<and> sorted (map existing_num (children example_sorted_rows))
   \<and> children example_sorted_row
        = take 2 (children example_sorted_row) @ drop 2 (children example_sorted_row)
   \<and> list_all (\<lambda>c. tag c = TAG_C) (take 2 (children example_sorted_row))
   \<and> list_all (\<lambda>x. tag x \<noteq> TAG_C) (drop 2 (children example_sorted_row))
   \<and> sorted (map cell_col_index (take 2 (children example_sorted_row)))
   \<and> parse_cell_ref ''B1'' = Inr (''B'', 1)
   \<and> sorted (map existing_num (findall (fst (insert_row_sorted example_sorted_rows 3)) TAG_ROW))
   \<and> sorted (map cell_col_index
         (findall (fst (projr (insert_cell_sorted example_sorted_row ''B1''))) TAG_C))
   \<and> map existing_num (children (fst (insert_row_sorted example_sorted_rows 3))) = [1, 3, 5]
   \<and> map cell_col_index (children (fst (projr (insert_cell_sorted example_sorted_row ''B1''))))
        = [1, 2, 3, 0]"
proof -
  let ?cells = "take 2 (children example_sorted_row)"
  let ?rest = "drop 2 (children example_sorted_row)"
  have h1: "children example_sorted_rows = children example_sorted_rows @ []" by simp
  have h2: "\<forall>r\<in>set (children example_sorted_rows). tag r = TAG_ROW" by code_simp
  have h3: "\<forall>x\<in>set ([] :: element list). tag x \<noteq> TAG_ROW" by simp
  have h4: "sorted (map existing_num (children example_sorted_rows))" by code_simp
  have h5: "children example_sorted_row = ?cells @ ?rest" by simp
  have h6: "\<forall>c\<in>set ?cells. tag c = TAG_C" by code_simp
  have h7: "\<forall>x\<in>set ?rest. tag x \<noteq> TAG_C" by code_simp
  have h8: "sorted (map cell_col_index ?cells)" by code_simp
  have h9: "parse_cell_ref ''B1'' = Inr (''B'', 1)" by code_simp
  have e1: "map existing_num (children (fst (insert_row_sorted example_sorted_rows 3))) = [1, 3, 5]"
    by code_simp
  have e2: "map cell_col_index (children (fst (projr (insert_cell_sorted example_sorted_row ''B1''))))
      = [1, 2, 3, 0]"
    by code_simp
  from sorted_insertion_keeps_order[OF h1 h2 h3 h4 h5 h6 h7 h8 h9, of 3]
  have c: "sorted (map existing_num (findall (fst (insert_row_sorted example_sorted_rows 3)) TAG_ROW))
      \<and> sorted (map cell_col_index
            (findall (fst (projr (insert_cell_sorted example_sorted_row ''B1''))) TAG_C))"
    by blast
  have l2: "list_all (\<lambda>r. tag r = TAG_ROW) (children example_sorted_rows)"
    using h2 by (simp only: list_all_iff)
  have l6: "list_all (\<lambda>c. tag c = TAG_C) ?cells"
    using h6 by (simp only: list_all_iff)
  have l7: "list_all (\<lambda>x. tag x \<noteq> TAG_C) ?rest"
    using h7 by (simp only: list_all_iff)
  from h1 l2 h4 h5 l6 l7 h8 h9 c e1 e2 show ?thesis by blast
qed

text \<open>
  C8. Take a new cell address that parses and a row number that is not negative. Sorted
  insertion of a cell (a row) among siblings some of which carry an address (number)
  attribute that does not match the pattern (does not read as an integer) returns without
  raising. The position \<open>k\<close> it returns is that of the first well-formed cell (row) whose
  index (number) exceeds the target, counted among the cells (rows), or their number when
  there is none; it is also the position one gets when every malformed sibling counts as
  0 in the comparison. The result has the tag, attributes and text of the parent; its
  children are the children of the parent, malformed ones included, unchanged and in their
  order, with the new node, which carries the address (number), put in at index \<open>k\<close>.
\<close>

theorem malformed_siblings_count_as_zero:
  assumes "parse_cell_ref address = Inr (col_letters, rn)" and "0 \<le> row_num"
  shows
    "(\<exists>k row'.
        insert_cell_sorted row address = Inr (row', k)
        \<and> k \<le> length (filter (\<lambda>c. tag c = TAG_C) (children row))
        \<and> (\<forall>j<k. \<not> (cell_ref_ok (filter (\<lambda>c. tag c = TAG_C) (children row) ! j)
                     \<and> col_letters_to_index col_letters
                          < cell_col_index (filter (\<lambda>c. tag c = TAG_C) (children row) ! j)))
        \<and> (k < length (filter (\<lambda>c. tag c = TAG_C) (children row)) \<longrightarrow>
              cell_ref_ok (filter (\<lambda>c. tag c = TAG_C) (children row) ! k)
              \<and> col_letters_to_index col_letters
                   < cell_col_index (filter (\<lambda>c. tag c = TAG_C) (children row) ! k))
        \<and> k = insert_at_index
                (\<lambda>c. cell_ref_ok c \<and> col_letters_to_index col_letters < cell_col_index c)
                (findall row TAG_C)
        \<and> k = insert_at_index (\<lambda>c. col_letters_to_index col_letters < cell_col_index c)
                (findall row TAG_C)
        \<and> row' = set_children row
                   (take k (children row) @ Element TAG_C [(''r'', address)] None []
                      # drop k (children row))
        \<and> children row'
             = take k (children row) @ Element TAG_C [(''r'', address)] None [] # drop k (children row)
        \<and> length (children row') = Suc (length (children row))
        \<and> children row' ! k = Element TAG_C [(''r'', address)] None []
        \<and> tag row' = tag row \<and> attrib row' = attrib row \<and> etext row' = etext row)
     \<and> (\<forall>c\<in>set (children row). \<not> cell_ref_ok c \<longrightarrow> cell_col_index c = 0)
     \<and> (\<exists>k sheet_data'.
        insert_row_sorted sheet_data row_num = (sheet_data', k)
        \<and> k \<le> length (filter (\<lambda>r. tag r = TAG_ROW) (children sheet_data))
        \<and> (\<forall>j<k. \<not> (row_num_ok (filter (\<lambda>r. tag r = TAG_ROW) (children sheet_data) ! j)
                     \<and> row_num < existing_num (filter (\<lambda>r. tag r = TAG_ROW) (children sheet_data) ! j)))
        \<and> (k < length (filter (\<lambda>r. tag r = TAG_ROW) (children sheet_data)) \<longrightarrow>
              row_num_ok (filter (\<lambda>r. tag r = TAG_ROW) (children sheet_data) ! k)
              \<and> row_num < existing_num (filter (\<lambda>r. tag r = TAG_ROW) (children sheet_data) ! k))
        \<and> k = insert_at_index (\<lambda>r. row_num_ok r \<and> row_num < existing_num r)
                (findall sheet_data TAG_ROW)
        \<and> k = insert_at_index (\<lambda>r. row_num < existing_num r) (findall sheet_data TAG_ROW)
        \<and> sheet_data' = set_children sheet_data
                   (take k (children sheet_data) @ Element TAG_ROW [(''r'', str_int row_num)] None []
                      # drop k (children sheet_data))
        \<and> children sheet_data'
             = take k (children sheet_data) @ Element TAG_ROW [(''r'', str_int row_num)] None []
                 # drop k (children sheet_data)
        \<and> length (children sheet_data') = Suc (length (children sheet_data))
        \<and> children sheet_data' ! k = Element TAG_ROW [(''r'', str_int row_num)] None []
        \<and> tag sheet_data' = tag sheet_data \<and> attrib sheet_data' = attrib sheet_data
        \<and> etext sheet_data' = etext sheet_data)
     \<and> (\<forall>r\<in>set (children sheet_data). \<not> row_num_ok r \<longrightarrow> existing_num r = 0)"
proof (intro conjI)
  let ?t = "col_letters_to_index col_letters"
  let ?cells = "filter (\<lambda>c. tag c = TAG_C) (children row)"
  let ?new = "Element TAG_C [(''r'', address)] None []"
  let ?k = "insert_at_index (\<lambda>c. cell_ref_ok c \<and> ?t < cell_col_index c) ?cells"
  let ?row' = "set_children row (take ?k (children row) @ ?new # drop ?k (children row))"
  note ics = insert_cell_sorted_eq[OF assms(1)]
  have c0: "\<not> cell_ref_ok c \<Longrightarrow> cell_col_index c = 0" for c
    by (auto simp: cell_ref_ok_def cell_col_index_def split: option.splits)
  have pc: "(cell_ref_ok c \<and> ?t < cell_col_index c) = (?t < cell_col_index c)" for c
    using ics(2) c0[of c] by (cases "cell_ref_ok c") auto
  have fa: "findall row TAG_C = ?cells" by (simp add: findall_def)
  have kz: "?k = insert_at_index (\<lambda>c. ?t < cell_col_index c) ?cells" by (simp add: pc)
  have le: "?k \<le> length ?cells" by (rule insert_at_index_le)
  have lc: "?k \<le> length (children row)"
    using le length_filter_le[of "\<lambda>c. tag c = TAG_C" "children row"] by linarith
  have p1: "\<forall>j<?k. \<not> (cell_ref_ok (?cells ! j) \<and> ?t < cell_col_index (?cells ! j))"
    using insert_at_index_props[of "\<lambda>c. cell_ref_ok c \<and> ?t < cell_col_index c" ?cells] by blast
  have p2: "?k < length ?cells \<longrightarrow> cell_ref_ok (?cells ! ?k) \<and> ?t < cell_col_index (?cells ! ?k)"
    using insert_at_index_props[of "\<lambda>c. cell_ref_ok c \<and> ?t < cell_col_index c" ?cells] by blast
  have eq: "insert_cell_sorted row address = Inr (?row', ?k)"
    using lc by (simp add: ics(1) fa kz[symmetric] list_insert_def min_def)
  have ch: "children ?row' = take ?k (children row) @ ?new # drop ?k (children row)"
    by (simp add: children_set_children)
  have ln: "length (children ?row') = Suc (length (children row))"
    using lc by (simp add: children_set_children)
  have nt: "children ?row' ! ?k = ?new"
    using lc by (simp add: children_set_children nth_append)
  have fr: "tag ?row' = tag row \<and> attrib ?row' = attrib row \<and> etext ?row' = etext row"
    by (simp add: set_children_def)
  have k1: "?k = insert_at_index (\<lambda>c. cell_ref_ok c \<and> ?t < cell_col_index c) (findall row TAG_C)"
    by (simp add: fa)
  have k2: "?k = insert_at_index (\<lambda>c. ?t < cell_col_index c) (findall row TAG_C)"
    using kz by (simp add: fa)
  show "\<exists>k row'.
        insert_cell_sorted row address = Inr (row', k)
        \<and> k \<le> length ?cells
        \<and> (\<forall>j<k. \<not> (cell_ref_ok (?cells ! j) \<and> ?t < cell_col_index (?cells ! j)))
        \<and> (k < length ?cells \<longrightarrow> cell_ref_ok (?cells ! k) \<and> ?t < cell_col_index (?cells ! k))
        \<and> k = insert_at_index (\<lambda>c. cell_ref_ok c \<and> ?t < cell_col_index c) (findall row TAG_C)
        \<and> k = insert_at_index (\<lambda>c. ?t < cell_col_index c) (findall row TAG_C)
        \<and> row' = set_children row (take k (children row) @ ?new # drop k (children row))
        \<and> children row' = take k (children row) @ ?new # drop k (children row)
        \<and> length (children row') = Suc (length (children row))
        \<and> children row' ! k = ?new
        \<and> tag row' = tag row \<and> attrib row' = attrib row \<and> etext row' = etext row"
    apply (rule exI[of _ ?k], rule exI[of _ ?row'])
    apply (intro conjI)
    apply (rule eq, rule le, rule p1, rule p2, rule k1, rule k2, rule refl, rule ch, rule ln, rule nt)
    using fr by simp_all
  show "\<forall>c\<in>set (children row). \<not> cell_ref_ok c \<longrightarrow> cell_col_index c = 0"
    using c0 by blast
next
  let ?rows = "filter (\<lambda>r. tag r = TAG_ROW) (children sheet_data)"
  let ?new = "Element TAG_ROW [(''r'', str_int row_num)] None []"
  let ?k = "insert_at_index (\<lambda>r. row_num_ok r \<and> row_num < existing_num r) ?rows"
  let ?sd' = "set_children sheet_data
                (take ?k (children sheet_data) @ ?new # drop ?k (children sheet_data))"
  have r0: "\<not> row_num_ok r \<Longrightarrow> existing_num r = 0" for r
    by (simp add: row_num_ok_def existing_num_def)
  have pr: "(row_num_ok r \<and> row_num < existing_num r) = (row_num < existing_num r)" for r
    using assms(2) r0[of r] by (cases "row_num_ok r") auto
  have fa: "findall sheet_data TAG_ROW = ?rows" by (simp add: findall_def)
  have kz: "?k = insert_at_index (\<lambda>r. row_num < existing_num r) ?rows" by (simp add: pr)
  have le: "?k \<le> length ?rows" by (rule insert_at_index_le)
  have lc: "?k \<le> length (children sheet_data)"
    using le length_filter_le[of "\<lambda>r. tag r = TAG_ROW" "children sheet_data"] by linarith
  have p1: "\<forall>j<?k. \<not> (row_num_ok (?rows ! j) \<and> row_num < existing_num (?rows ! j))"
    using insert_at_index_props[of "\<lambda>r. row_num_ok r \<and> row_num < existing_num r" ?rows] by blast
  have p2: "?k < length ?rows \<longrightarrow> row_num_ok (?rows ! ?k) \<and> row_num < existing_num (?rows ! ?k)"
    using insert_at_index_props[of "\<lambda>r. row_num_ok r \<and> row_num < existing_num r" ?rows] by blast
  have eq: "insert_row_sorted sheet_data row_num = (?sd', ?k)"
    using lc by (simp add: insert_row_sorted_def Let_def fa kz[symmetric] list_insert_def min_def)
  have ch: "children ?sd' = take ?k (children sheet_data) @ ?new # drop ?k (children sheet_data)"
    by (simp add: children_set_children)
  have ln: "length (children ?sd') = Suc (length (children sheet_data))"
    using lc by (simp add: children_set_children)
  have nt: "children ?sd' ! ?k = ?new"
    using lc by (simp add: children_set_children nth_append)
  have fr: "tag ?sd' = tag sheet_data \<and> attrib ?sd' = attrib sheet_data
      \<and> etext ?sd' = etext sheet_data"
    by (simp add: set_children_def)
  have k1: "?k = insert_at_index (\<lambda>r. row_num_ok r \<and> row_num < existing_num r)
      (findall sheet_data TAG_ROW)"
    by (simp add: fa)
  have k2: "?k = insert_at_index (\<lambda>r. row_num < existing_num r) (findall sheet_data TAG_ROW)"
    using kz by (simp add: fa)
  show "\<exists>k sheet_data'.
        insert_row_sorted sheet_data row_num = (sheet_data', k)
        \<and> k \<le> length ?rows
        \<and> (\<forall>j<k. \<not> (row_num_ok (?rows ! j) \<and> row_num < existing_num (?rows ! j)))
        \<and> (k < length ?rows \<longrightarrow> row_num_ok (?rows ! k) \<and> row_num < existing_num (?rows ! k))
        \<and> k = insert_at_index (\<lambda>r. row_num_ok r \<and> row_num < existing_num r)
                (findall sheet_data TAG_ROW)
        \<and> k = insert_at_index (\<lambda>r. row_num < existing_num r) (findall sheet_data TAG_ROW)
        \<and> sheet_data' = set_children sheet_data
                   (take k (children sheet_data) @ ?new # drop k (children sheet_data))
        \<and> children sheet_data'
             = take k (children sheet_data) @ ?new # drop k (children sheet_data)
        \<and> length (children sheet_data') = Suc (length (children sheet_data))
        \<and> children sheet_data' ! k = ?new
        \<and> tag sheet_data' = tag sheet_data \<and> attrib sheet_data' = attrib sheet_data
        \<and> etext sheet_data' = etext sheet_data"
    apply (rule exI[of _ ?k], rule exI[of _ ?sd'])
    apply (intro conjI)
    apply (rule eq, rule le, rule p1, rule p2, rule k1, rule k2, rule refl, rule ch, rule ln, rule nt)
    using fr by simp_all
  show "\<forall>r\<in>set (children sheet_data). \<not> row_num_ok r \<longrightarrow> existing_num r = 0"
    using r0 by blast
qed

theorem malformed_siblings_count_as_zero_witness:
  "parse_cell_ref ''B1'' = Inr (''B'', 1) \<and> (0::int) \<le> 3
   \<and> \<not> cell_ref_ok (children example_row ! 1) \<and> \<not> row_num_ok (children example_rows ! 1)
   \<and> snd (projr (insert_cell_sorted example_row ''B1'')) = 2
   \<and> children (fst (projr (insert_cell_sorted example_row ''B1'')))
        = [Element TAG_C [(''r'', ''A1'')] None [], Element TAG_C [(''r'', ''??'')] None [],
           Element TAG_C [(''r'', ''B1'')] None [], Element TAG_C [(''r'', ''C1'')] None []]
   \<and> snd (insert_row_sorted example_rows 3) = 2
   \<and> children (fst (insert_row_sorted example_rows 3))
        = [Element TAG_ROW [(''r'', ''1'')] None [], Element TAG_ROW [(''r'', ''x'')] None [],
           Element TAG_ROW [(''r'', ''3'')] None [], Element TAG_ROW [(''r'', ''5'')] None []]"
proof -
  have h1: "parse_cell_ref ''B1'' = Inr (''B'', 1)" by code_simp
  have h2: "(0::int) \<le> 3" by simp
  have m: "\<not> cell_ref_ok (children example_row ! 1) \<and> \<not> row_num_ok (children example_rows ! 1)"
    by code_simp
  have k1: "insert_at_index (\<lambda>c. cell_ref_ok c \<and> col_letters_to_index ''B'' < cell_col_index c)
        (findall example_row TAG_C) = 2"
    by code_simp
  have k2: "insert_at_index (\<lambda>r. row_num_ok r \<and> 3 < existing_num r)
        (findall example_rows TAG_ROW) = 2"
    by code_simp
  have c1: "take 2 (children example_row) @ Element TAG_C [(''r'', ''B1'')] None []
        # drop 2 (children example_row)
      = [Element TAG_C [(''r'', ''A1'')] None [], Element TAG_C [(''r'', ''??'')] None [],
         Element TAG_C [(''r'', ''B1'')] None [], Element TAG_C [(''r'', ''C1'')] None []]"
    by code_simp
  have c2: "take 2 (children example_rows) @ Element TAG_ROW [(''r'', str_int 3)] None []
        # drop 2 (children example_rows)
      = [Element TAG_ROW [(''r'', ''1'')] None [], Element TAG_ROW [(''r'', ''x'')] None [],
         Element TAG_ROW [(''r'', ''3'')] None [], Element TAG_ROW [(''r'', ''5'')] None []]"
    by code_simp
  note t = malformed_siblings_count_as_zero[OF h1 h2, of example_row example_rows]
  from t obtain k row' where
    a: "insert_cell_sorted example_row ''B1'' = Inr (row', k)"
    and ak: "k = insert_at_index (\<lambda>c. cell_ref_ok c \<and> col_letters_to_index ''B'' < cell_col_index c)
                (findall example_row TAG_C)"
    and ac: "children row' = take k (children example_row) @ Element TAG_C [(''r'', ''B1'')] None []
               # drop k (children example_row)"
    by blast
  from t obtain l sd' where
    b: "insert_row_sorted example_rows 3 = (sd', l)"
    and bk: "l = insert_at_index (\<lambda>r. row_num_ok r \<and> 3 < existing_num r)
                (findall example_rows TAG_ROW)"
    and bc: "children sd' = take l (children example_rows) @ Element TAG_ROW [(''r'', str_int 3)] None []
               # drop l (children example_rows)"
    by blast
  have r1: "snd (projr (insert_cell_sorted example_row ''B1'')) = 2"
    using a ak k1 by simp
  have r2: "children (fst (projr (insert_cell_sorted example_row ''B1'')))
        = [Element TAG_C [(''r'', ''A1'')] None [], Element TAG_C [(''r'', ''??'')] None [],
           Element TAG_C [(''r'', ''B1'')] None [], Element TAG_C [(''r'', ''C1'')] None []]"
    using a ac ak k1 c1 by simp
  have r3: "snd (insert_row_sorted example_rows 3) = 2"
    using b bk k2 by simp
  have r4: "children (fst (insert_row_sorted example_rows 3))
        = [Element TAG_ROW [(''r'', ''1'')] None [], Element TAG_ROW [(''r'', ''x'')] None [],
           Element TAG_ROW [(''r'', ''3'')] None [], Element TAG_ROW [(''r'', ''5'')] None []]"
    using b bc bk k2 c2 by simp
  from h1 h2 m r1 r2 r3 r4 show ?thesis by blast
qed

section \<open>The change applicator\<close>

lemma apply_change_unfold:
  assumes "table_index_of c = Inr ti" "column_index_of c = Inr ci"
    and "parse_cell_ref (change_address c) = Inr (cl, rn)"
  shows "apply_change shared (sd, n, iss) c =
     (if strip (current_value sd shared rn (change_address c)) \<noteq> strip (change_before c)
         \<and> strip (current_value sd shared rn (change_address c)) \<noteq> strip (change_after c)
      then Inr (sd, n, iss @ [\<lparr>sheetName = dict_get c ''sheetName'' (JStr []),
                sourceAddress = change_address c,
                reason = mismatch_reason (change_before c)
                           (current_value sd shared rn (change_address c)),
                tableIndex = ti, columnIndex = ci, target = target_of c\<rparr>])
      else
        (case (case find_row sd rn of None \<Rightarrow> insert_row_sorted sd rn | Some i \<Rightarrow> (sd, i)) of
          (sd1, i) \<Rightarrow>
        (case (case (case find_row sd rn of None \<Rightarrow> None
                     | Some i \<Rightarrow> find_cell (children sd ! i) (change_address c)) of
                 None \<Rightarrow> insert_cell_sorted (children sd1 ! i) (change_address c)
               | Some j \<Rightarrow> Inr (children sd1 ! i, j)) of
          Inl e \<Rightarrow> Inl e
        | Inr (row1, j) \<Rightarrow>
            Inr (set_children sd1
                   ((children sd1)
                      [i := set_children row1
                              ((children row1)[j := write_inline_string (children row1 ! j) (change_after c)])]),
                 n + 1, iss))))"
  using assms by (simp add: apply_change_def Let_def)

lemma int_coercibleD:
  "int_coercible c \<Longrightarrow> \<exists>ti ci. table_index_of c = Inr ti \<and> column_index_of c = Inr ci"
  by (cases "table_index_of c"; cases "column_index_of c") (auto simp: int_coercible_def)

lemma insert_cell_sorted_ok:
  "parse_cell_ref a = Inr (cl, rn) \<Longrightarrow> \<exists>r' j. insert_cell_sorted row a = Inr (r', j)"
  by (simp add: insert_cell_sorted_def Let_def)

lemma apply_change_applied:
  assumes "table_index_of c = Inr ti" "column_index_of c = Inr ci"
    and "parse_cell_ref (change_address c) = Inr (cl, rn)"
    and "strip (current_value sd shared rn (change_address c)) = strip (change_before c)
         \<or> strip (current_value sd shared rn (change_address c)) = strip (change_after c)"
  shows "\<exists>sd'. apply_change shared (sd, n, iss) c = Inr (sd', n + 1, iss)"
proof -
  obtain sd1 i where a: "(case find_row sd rn of None \<Rightarrow> insert_row_sorted sd rn | Some i \<Rightarrow> (sd, i)) = (sd1, i)"
    by (cases "(case find_row sd rn of None \<Rightarrow> insert_row_sorted sd rn | Some i \<Rightarrow> (sd, i))") auto
  have "\<exists>row1 j. (case (case find_row sd rn of None \<Rightarrow> None
                     | Some i \<Rightarrow> find_cell (children sd ! i) (change_address c)) of
                 None \<Rightarrow> insert_cell_sorted (children sd1 ! i) (change_address c)
               | Some j \<Rightarrow> Inr (children sd1 ! i, j)) = Inr (row1, j)"
    using insert_cell_sorted_ok[OF assms(3), of "children sd1 ! i"]
    by (cases "case find_row sd rn of None \<Rightarrow> None
                     | Some i \<Rightarrow> find_cell (children sd ! i) (change_address c)") auto
  then obtain row1 j where b: "(case (case find_row sd rn of None \<Rightarrow> None
                     | Some i \<Rightarrow> find_cell (children sd ! i) (change_address c)) of
                 None \<Rightarrow> insert_cell_sorted (children sd1 ! i) (change_address c)
               | Some j \<Rightarrow> Inr (children sd1 ! i, j)) = Inr (row1, j)"
    by blast
  show ?thesis
    using assms(4) by (auto simp: apply_change_unfold[OF assms(1,2,3)] a b)
qed

lemma apply_change_outcome:
  assumes "int_coercible c" and "parse_cell_ref (change_address c) = Inr (cl, rn)"
  shows "\<exists>sd' n' iss'. apply_change shared (sd, n, iss) c = Inr (sd', n', iss')
     \<and> ((n' = n + 1 \<and> iss' = iss) \<longleftrightarrow>
          (strip (current_value sd shared rn (change_address c)) = strip (change_before c)
           \<or> strip (current_value sd shared rn (change_address c)) = strip (change_after c)))
     \<and> (strip (current_value sd shared rn (change_address c)) \<noteq> strip (change_before c)
        \<and> strip (current_value sd shared rn (change_address c)) \<noteq> strip (change_after c) \<longrightarrow>
          sd' = sd \<and> n' = n
          \<and> (\<exists>i. iss' = iss @ [i]
                \<and> reason i = mismatch_reason (change_before c)
                     (current_value sd shared rn (change_address c))))"
proof -
  from int_coercibleD[OF assms(1)] obtain ti ci where
    t: "table_index_of c = Inr ti" "column_index_of c = Inr ci" by blast
  show ?thesis
  proof (cases "strip (current_value sd shared rn (change_address c)) = strip (change_before c)
           \<or> strip (current_value sd shared rn (change_address c)) = strip (change_after c)")
    case True
    from apply_change_applied[OF t assms(2) True, of n iss] True show ?thesis by auto
  next
    case False
    then show ?thesis
      by (simp add: apply_change_unfold[OF t assms(2)])
  qed
qed

lemma extract_write_inline:
  "extract_cell_text (write_inline_string cell v) shared = v"
  by (simp add: extract_cell_text_def write_inline_string_def update_conv' findall_deep_def
        TAG_IS_def TAG_T_def qname_def text_or_empty_def)

lemma first_index_update:
  "first_index P xs = Some i \<Longrightarrow> P y \<Longrightarrow> first_index P (xs[i := y]) = Some i"
proof (induction xs arbitrary: i)
  case Nil
  then show ?case by simp
next
  case (Cons x xs)
  show ?case
  proof (cases "P x")
    case True
    with Cons.prems show ?thesis by simp
  next
    case False
    with Cons.prems obtain k where k: "first_index P xs = Some k" "i = Suc k"
      by auto
    from Cons.IH[OF k(1) Cons.prems(2)] False k(2) show ?thesis by simp
  qed
qed

lemma first_index_insert:
  "\<forall>x\<in>set xs. \<not> P x \<Longrightarrow> P y \<Longrightarrow> k \<le> length xs
     \<Longrightarrow> first_index P (list_insert k y xs) = Some k"
proof (induction xs arbitrary: k)
  case Nil
  then show ?case by (simp add: list_insert_def)
next
  case (Cons x xs)
  show ?case
  proof (cases k)
    case 0
    with Cons.prems show ?thesis by (simp add: list_insert_0)
  next
    case (Suc m)
    with Cons.prems have "first_index P (list_insert m y xs) = Some m"
      by (intro Cons.IH) auto
    with Cons.prems Suc show ?thesis by (simp add: list_insert_Suc)
  qed
qed

lemma nth_list_insert: "k \<le> length xs \<Longrightarrow> list_insert k y xs ! k = y"
  by (simp add: list_insert_def nth_append)

text \<open>The row that the write goes to: the one \<open>find_row\<close> found, or the one
  \<open>insert_row_sorted\<close> has just put in, which \<open>find_row\<close> finds from then on.\<close>

lemma locate_row:
  "\<exists>sd1 i. (case find_row sd rn of None \<Rightarrow> insert_row_sorted sd rn | Some i \<Rightarrow> (sd, i)) = (sd1, i)
     \<and> find_row sd1 rn = Some i
     \<and> (case find_row sd rn of None \<Rightarrow> None | Some i \<Rightarrow> find_cell (children sd ! i) a)
         = find_cell (children sd1 ! i) a"
proof (cases "find_row sd rn")
  case (Some i)
  then show ?thesis by simp
next
  case None
  let ?new = "Element TAG_ROW [(''r'', str_int rn)] None []"
  let ?k = "insert_at_index (\<lambda>row. rn < existing_num row) (findall sd TAG_ROW)"
  let ?sd1 = "set_children sd (list_insert ?k ?new (children sd))"
  have le: "?k \<le> length (children sd)"
    using insert_at_index_le[of "\<lambda>row. rn < existing_num row" "findall sd TAG_ROW"]
      findall_length[of sd TAG_ROW]
    by linarith
  have no: "\<forall>x\<in>set (children sd).
      \<not> (tag x = TAG_ROW \<and> map_of (attrib x) ''r'' = Some (str_int rn))"
    using None by (simp add: find_row_def first_index_None_iff)
  have "first_index (\<lambda>row. tag row = TAG_ROW \<and> map_of (attrib row) ''r'' = Some (str_int rn))
      (list_insert ?k ?new (children sd)) = Some ?k"
    by (rule first_index_insert[OF no _ le]) simp
  then have fr: "find_row ?sd1 rn = Some ?k"
    by (simp add: find_row_def children_set_children)
  have nt: "children ?sd1 ! ?k = ?new"
    using le by (simp add: children_set_children nth_list_insert)
  have fc: "find_cell ?new a = None" by (simp add: find_cell_def)
  have eq: "insert_row_sorted sd rn = (?sd1, ?k)"
    using le by (simp add: insert_row_sorted_def Let_def min_def)
  show ?thesis
    using fr by (simp add: None eq nt fc)
qed

text \<open>The cell that the write goes to: the one \<open>find_cell\<close> found, or the one
  \<open>insert_cell_sorted\<close> has just put in, which \<open>find_cell\<close> finds from then on.\<close>

lemma locate_cell:
  assumes "parse_cell_ref a = Inr (cl, rn)"
  shows "\<exists>row1 j. (case find_cell row a of None \<Rightarrow> insert_cell_sorted row a
                     | Some j \<Rightarrow> Inr (row, j)) = Inr (row1, j)
     \<and> find_cell row1 a = Some j \<and> tag row1 = tag row \<and> attrib row1 = attrib row"
proof (cases "find_cell row a")
  case (Some j)
  then show ?thesis by simp
next
  case None
  let ?new = "Element TAG_C [(''r'', a)] None []"
  let ?k = "insert_at_index (\<lambda>c. col_letters_to_index cl < cell_col_index c) (findall row TAG_C)"
  let ?row1 = "set_children row (list_insert ?k ?new (children row))"
  note ics = insert_cell_sorted_eq[OF assms]
  have le: "?k \<le> length (children row)"
    using insert_at_index_le[of "\<lambda>c. col_letters_to_index cl < cell_col_index c" "findall row TAG_C"]
      findall_length[of row TAG_C]
    by linarith
  have no: "\<forall>x\<in>set (children row). \<not> (tag x = TAG_C \<and> map_of (attrib x) ''r'' = Some a)"
    using None by (simp add: find_cell_def first_index_None_iff)
  have "first_index (\<lambda>cell. tag cell = TAG_C \<and> map_of (attrib cell) ''r'' = Some a)
      (list_insert ?k ?new (children row)) = Some ?k"
    by (rule first_index_insert[OF no _ le]) simp
  then have fc: "find_cell ?row1 a = Some ?k"
    by (simp add: find_cell_def children_set_children)
  have eq: "insert_cell_sorted row a = Inr (?row1, ?k)"
    using le by (simp add: ics(1) min_def)
  have fr: "tag ?row1 = tag row \<and> attrib ?row1 = attrib row"
    by (simp add: set_children_def)
  show ?thesis
    using fc fr by (simp add: None eq)
qed

text \<open>An applied change has written: afterwards the lookups of the request's address
  find a cell, and that cell is the inline string \<open>afterName\<close>.\<close>

lemma apply_change_writes:
  assumes t: "table_index_of c = Inr ti" "column_index_of c = Inr ci"
    and p: "parse_cell_ref (change_address c) = Inr (cl, rn)"
    and m: "strip (current_value sd shared rn (change_address c)) = strip (change_before c)
         \<or> strip (current_value sd shared rn (change_address c)) = strip (change_after c)"
  shows "\<exists>sd' i j old. apply_change shared (sd, n, iss) c = Inr (sd', n + 1, iss)
      \<and> find_row sd' rn = Some i
      \<and> find_cell (children sd' ! i) (change_address c) = Some j
      \<and> children (children sd' ! i) ! j = write_inline_string old (change_after c)"
proof -
  let ?a = "change_address c"
  from locate_row[of sd rn ?a] obtain sd1 i where
    a: "(case find_row sd rn of None \<Rightarrow> insert_row_sorted sd rn | Some i \<Rightarrow> (sd, i)) = (sd1, i)"
    and fr: "find_row sd1 rn = Some i"
    and ec: "(case find_row sd rn of None \<Rightarrow> None | Some i \<Rightarrow> find_cell (children sd ! i) ?a)
         = find_cell (children sd1 ! i) ?a"
    by blast
  from locate_cell[OF p, of "children sd1 ! i"] obtain row1 j where
    b: "(case find_cell (children sd1 ! i) ?a of
           None \<Rightarrow> insert_cell_sorted (children sd1 ! i) ?a
         | Some j \<Rightarrow> Inr (children sd1 ! i, j)) = Inr (row1, j)"
    and fc: "find_cell row1 ?a = Some j"
    and tg: "tag row1 = tag (children sd1 ! i)" "attrib row1 = attrib (children sd1 ! i)"
    by blast
  define w where "w = write_inline_string (children row1 ! j) (change_after c)"
  define row2 where "row2 = set_children row1 ((children row1)[j := w])"
  define sd' where "sd' = set_children sd1 ((children sd1)[i := row2])"
  have ap: "apply_change shared (sd, n, iss) c = Inr (sd', n + 1, iss)"
    using m by (auto simp: apply_change_unfold[OF t p] a ec b sd'_def row2_def w_def)
  have i: "i < length (children sd1)"
    and Pi: "tag (children sd1 ! i) = TAG_ROW
             \<and> map_of (attrib (children sd1 ! i)) ''r'' = Some (str_int rn)"
    using first_index_SomeD[OF fr[unfolded find_row_def]] by auto
  have j: "j < length (children row1)"
    and Qj: "tag (children row1 ! j) = TAG_C \<and> map_of (attrib (children row1 ! j)) ''r'' = Some ?a"
    using first_index_SomeD[OF fc[unfolded find_cell_def]] by auto
  have Qw: "tag w = TAG_C \<and> map_of (attrib w) ''r'' = Some ?a"
    using Qj by (simp add: w_def write_inline_string_def update_conv')
  have "first_index (\<lambda>cell. tag cell = TAG_C \<and> map_of (attrib cell) ''r'' = Some ?a)
      ((children row1)[j := w]) = Some j"
    by (rule first_index_update[OF fc[unfolded find_cell_def]]) (simp add: Qw)
  then have fc2: "find_cell row2 ?a = Some j"
    by (simp add: find_cell_def row2_def children_set_children)
  have P2: "tag row2 = TAG_ROW \<and> map_of (attrib row2) ''r'' = Some (str_int rn)"
    using Pi tg by (simp add: row2_def set_children_def)
  have "first_index (\<lambda>row. tag row = TAG_ROW \<and> map_of (attrib row) ''r'' = Some (str_int rn))
      ((children sd1)[i := row2]) = Some i"
    by (rule first_index_update[OF fr[unfolded find_row_def]]) (simp add: P2)
  then have fr2: "find_row sd' rn = Some i"
    by (simp add: find_row_def sd'_def children_set_children)
  have at_i: "children sd' ! i = row2"
    using i by (simp add: sd'_def children_set_children)
  have at_j: "children row2 ! j = w"
    using j by (simp add: row2_def children_set_children)
  have "apply_change shared (sd, n, iss) c = Inr (sd', n + 1, iss)
      \<and> find_row sd' rn = Some i
      \<and> find_cell (children sd' ! i) ?a = Some j
      \<and> children (children sd' ! i) ! j = write_inline_string (children row1 ! j) (change_after c)"
    using ap fr2 fc2 at_i at_j by (simp add: w_def)
  then show ?thesis by blast
qed

lemma write_inline_string_shape:
  "tag (write_inline_string old v) = tag old
   \<and> map_of (attrib (write_inline_string old v)) ''t'' = Some ''inlineStr''
   \<and> children (write_inline_string old v)
       = [Element TAG_IS [] None
            [Element TAG_T (if needs_preserve v then [(qname NS_XML ''space'', ''preserve'')] else [])
               (Some v) []]]"
  by (simp add: write_inline_string_def update_conv')

lemma apply_change_full:
  assumes "int_coercible c" and "parse_cell_ref (change_address c) = Inr (cl, rn)"
  shows "\<exists>sd' n' iss'. apply_change shared (sd, n, iss) c = Inr (sd', n', iss')
     \<and> ((n' = n + 1 \<and> iss' = iss) \<longleftrightarrow>
          (strip (current_value sd shared rn (change_address c)) = strip (change_before c)
           \<or> strip (current_value sd shared rn (change_address c)) = strip (change_after c)))
     \<and> (strip (current_value sd shared rn (change_address c)) \<noteq> strip (change_before c)
        \<and> strip (current_value sd shared rn (change_address c)) \<noteq> strip (change_after c) \<longrightarrow>
          sd' = sd \<and> n' = n
          \<and> (\<exists>i. iss' = iss @ [i]
                \<and> reason i = mismatch_reason (change_before c)
                     (current_value sd shared rn (change_address c))))
     \<and> (strip (current_value sd shared rn (change_address c)) = strip (change_before c)
        \<or> strip (current_value sd shared rn (change_address c)) = strip (change_after c) \<longrightarrow>
          (\<exists>i j. find_row sd' rn = Some i
             \<and> find_cell (children sd' ! i) (change_address c) = Some j
             \<and> map_of (attrib (children (children sd' ! i) ! j)) ''t'' = Some ''inlineStr''
             \<and> children (children (children sd' ! i) ! j)
                 = [Element TAG_IS [] None
                      [Element TAG_T
                         (if needs_preserve (change_after c)
                          then [(qname NS_XML ''space'', ''preserve'')] else [])
                         (Some (change_after c)) []]]
             \<and> extract_cell_text (children (children sd' ! i) ! j) shared = change_after c)
          \<and> current_value sd' shared rn (change_address c) = change_after c)"
proof -
  from int_coercibleD[OF assms(1)] obtain ti ci where
    t: "table_index_of c = Inr ti" "column_index_of c = Inr ci" by blast
  show ?thesis
  proof (cases "strip (current_value sd shared rn (change_address c)) = strip (change_before c)
           \<or> strip (current_value sd shared rn (change_address c)) = strip (change_after c)")
    case True
    from apply_change_writes[OF t assms(2) True, of n iss] obtain sd' i j old where
      ap: "apply_change shared (sd, n, iss) c = Inr (sd', n + 1, iss)"
      and fr: "find_row sd' rn = Some i"
      and fc: "find_cell (children sd' ! i) (change_address c) = Some j"
      and w: "children (children sd' ! i) ! j = write_inline_string old (change_after c)"
      by blast
    have cv: "current_value sd' shared rn (change_address c) = change_after c"
      by (simp add: current_value_def fr fc w extract_write_inline)
    have "\<exists>i j. find_row sd' rn = Some i
             \<and> find_cell (children sd' ! i) (change_address c) = Some j
             \<and> map_of (attrib (children (children sd' ! i) ! j)) ''t'' = Some ''inlineStr''
             \<and> children (children (children sd' ! i) ! j)
                 = [Element TAG_IS [] None
                      [Element TAG_T
                         (if needs_preserve (change_after c)
                          then [(qname NS_XML ''space'', ''preserve'')] else [])
                         (Some (change_after c)) []]]
             \<and> extract_cell_text (children (children sd' ! i) ! j) shared = change_after c"
      using fr fc write_inline_string_shape[of old "change_after c"]
      by (intro exI[of _ i] exI[of _ j]) (simp add: w extract_write_inline)
    with ap cv True show ?thesis by (intro exI[of _ sd'] exI[of _ "n + 1"] exI[of _ iss]) simp
  next
    case False
    then show ?thesis
      by (simp add: apply_change_unfold[OF t assms(2)])
  qed
qed

text \<open>
  C1, for a change request whose \<open>tableIndex\<close> and \<open>columnIndex\<close> are integer-coercible.
  Let the request's \<open>sourceAddress\<close> parse as a cell address. The current value is the text
  of the cell that \<open>find_row\<close> and \<open>find_cell\<close> locate, and the empty string when the row or
  the cell is absent. The iteration returns without raising. It applies the change, that
  is, it counts it, records no issue, and leaves a sheet in which the lookups of the address
  find a cell that is the inline string \<open>afterName\<close> and reads back as \<open>afterName\<close>, if and
  only if the trimmed current value equals the trimmed \<open>beforeName\<close> or the trimmed
  \<open>afterName\<close>. When neither matches, the sheet data is returned as it was, the counter is
  unchanged, and exactly one issue is appended, whose reason is
  \<open>Cell value mismatch. expected="<beforeName>" actual="<current value>"\<close>.
\<close>

theorem apply_iff_value_matches:
  assumes "int_coercible c"
    and "parse_cell_ref (change_address c) = Inr (col_letters, row_num)"
  shows
    "(\<exists>sheet_data' applied' issues'.
        apply_change shared_strings (sheet_data, applied, issues) c
          = Inr (sheet_data', applied', issues')
        \<and> ((applied' = applied + 1 \<and> issues' = issues) \<longleftrightarrow>
             (strip (current_value sheet_data shared_strings row_num (change_address c))
                = strip (change_before c)
              \<or> strip (current_value sheet_data shared_strings row_num (change_address c))
                = strip (change_after c)))
        \<and> (strip (current_value sheet_data shared_strings row_num (change_address c))
              \<noteq> strip (change_before c)
           \<and> strip (current_value sheet_data shared_strings row_num (change_address c))
              \<noteq> strip (change_after c) \<longrightarrow>
             sheet_data' = sheet_data \<and> applied' = applied
             \<and> (\<exists>i. issues' = issues @ [i]
                   \<and> reason i = mismatch_reason (change_before c)
                        (current_value sheet_data shared_strings row_num (change_address c))))
        \<and> (strip (current_value sheet_data shared_strings row_num (change_address c))
              = strip (change_before c)
           \<or> strip (current_value sheet_data shared_strings row_num (change_address c))
              = strip (change_after c) \<longrightarrow>
             (\<exists>i j. find_row sheet_data' row_num = Some i
                \<and> find_cell (children sheet_data' ! i) (change_address c) = Some j
                \<and> map_of (attrib (children (children sheet_data' ! i) ! j)) ''t'' = Some ''inlineStr''
                \<and> children (children (children sheet_data' ! i) ! j)
                    = [Element TAG_IS [] None
                         [Element TAG_T
                            (if needs_preserve (change_after c)
                             then [(qname NS_XML ''space'', ''preserve'')] else [])
                            (Some (change_after c)) []]]
                \<and> extract_cell_text (children (children sheet_data' ! i) ! j) shared_strings
                    = change_after c)
             \<and> current_value sheet_data' shared_strings row_num (change_address c)
                 = change_after c))
     \<and> (find_row sheet_data row_num = None \<longrightarrow>
          current_value sheet_data shared_strings row_num (change_address c) = [])
     \<and> (\<forall>i. find_row sheet_data row_num = Some i
            \<and> find_cell (children sheet_data ! i) (change_address c) = None \<longrightarrow>
          current_value sheet_data shared_strings row_num (change_address c) = [])
     \<and> (\<forall>i j. find_row sheet_data row_num = Some i
            \<and> find_cell (children sheet_data ! i) (change_address c) = Some j \<longrightarrow>
          current_value sheet_data shared_strings row_num (change_address c)
            = extract_cell_text (children (children sheet_data ! i) ! j) shared_strings)"
proof -
  note full = apply_change_full[OF assms, of shared_strings sheet_data applied issues]
  have c1: "find_row sheet_data row_num = None \<longrightarrow>
          current_value sheet_data shared_strings row_num (change_address c) = []"
    by (simp add: current_value_def)
  have c2: "\<forall>i. find_row sheet_data row_num = Some i
            \<and> find_cell (children sheet_data ! i) (change_address c) = None \<longrightarrow>
          current_value sheet_data shared_strings row_num (change_address c) = []"
    by (simp add: current_value_def)
  have c3: "\<forall>i j. find_row sheet_data row_num = Some i
            \<and> find_cell (children sheet_data ! i) (change_address c) = Some j \<longrightarrow>
          current_value sheet_data shared_strings row_num (change_address c)
            = extract_cell_text (children (children sheet_data ! i) ! j) shared_strings"
    by (simp add: current_value_def)
  show ?thesis
    by (intro conjI) (rule full, rule c1, rule c2, rule c3)
qed

theorem apply_iff_value_matches_witness:
  "int_coercible (example_change ''A2'' ''New'')
   \<and> parse_cell_ref (change_address (example_change ''A2'' ''New'')) = Inr (''A'', 2)
   \<and> current_value example_sheet [] 2 (change_address (example_change ''A2'' ''New'')) = ''7''
   \<and> strip ''7'' \<noteq> strip (change_before (example_change ''A2'' ''New''))
   \<and> strip ''7'' \<noteq> strip (change_after (example_change ''A2'' ''New''))
   \<and> mismatch_reason (change_before (example_change ''A2'' ''New'')) ''7''
        = ''Cell value mismatch. expected=\"Old\" actual=\"7\"''
   \<and> (\<exists>issue. apply_change [] (example_sheet, 0, []) (example_change ''A2'' ''New'')
                  = Inr (example_sheet, 0, [issue])
          \<and> reason issue = mismatch_reason (change_before (example_change ''A2'' ''New'')) ''7'')
   \<and> int_coercible (example_change ''B2'' ''New'')
   \<and> parse_cell_ref (change_address (example_change ''B2'' ''New'')) = Inr (''B'', 2)
   \<and> current_value example_sheet [] 2 (change_address (example_change ''B2'' ''New'')) = ''Old''
   \<and> strip ''Old'' = strip (change_before (example_change ''B2'' ''New''))
   \<and> change_after (example_change ''B2'' ''New'') = ''New''
   \<and> (\<exists>sheet_data'. apply_change [] (example_sheet, 0, []) (example_change ''B2'' ''New'')
                  = Inr (sheet_data', 1, [])
          \<and> current_value sheet_data' [] 2 (change_address (example_change ''B2'' ''New''))
              = ''New'')"
proof -
  let ?c = "example_change ''A2'' ''New''"
  let ?d = "example_change ''B2'' ''New''"
  have h1: "int_coercible ?c" by code_simp
  have h2: "parse_cell_ref (change_address ?c) = Inr (''A'', 2)" by code_simp
  have cur: "current_value example_sheet [] 2 (change_address ?c) = ''7''" by code_simp
  have ne: "strip ''7'' \<noteq> strip (change_before ?c)" "strip ''7'' \<noteq> strip (change_after ?c)"
    by code_simp+
  have mr: "mismatch_reason (change_before ?c) ''7''
      = ''Cell value mismatch. expected=\"Old\" actual=\"7\"''"
    by code_simp
  from apply_iff_value_matches[OF h1 h2, of "[]" example_sheet 0 "[]"]
  obtain sd' n' iss' where
    a: "apply_change [] (example_sheet, 0, []) ?c = Inr (sd', n', iss')"
    and b: "strip (current_value example_sheet [] 2 (change_address ?c)) \<noteq> strip (change_before ?c)
           \<and> strip (current_value example_sheet [] 2 (change_address ?c)) \<noteq> strip (change_after ?c) \<longrightarrow>
             sd' = example_sheet \<and> n' = 0
             \<and> (\<exists>i. iss' = [] @ [i]
                   \<and> reason i = mismatch_reason (change_before ?c)
                        (current_value example_sheet [] 2 (change_address ?c)))"
    by blast
  from b ne have "sd' = example_sheet \<and> n' = 0
      \<and> (\<exists>i. iss' = [i] \<and> reason i = mismatch_reason (change_before ?c) ''7'')"
    unfolding cur by simp
  with a have mis: "\<exists>issue. apply_change [] (example_sheet, 0, []) ?c = Inr (example_sheet, 0, [issue])
          \<and> reason issue = mismatch_reason (change_before ?c) ''7''"
    by blast
  have g1: "int_coercible ?d" by code_simp
  have g2: "parse_cell_ref (change_address ?d) = Inr (''B'', 2)" by code_simp
  have cur2: "current_value example_sheet [] 2 (change_address ?d) = ''Old''" by code_simp
  have eq: "strip ''Old'' = strip (change_before ?d)" by code_simp
  have ca: "change_after ?d = ''New''" by code_simp
  from apply_iff_value_matches[OF g1 g2, of "[]" example_sheet 0 "[]"]
  obtain sd2 n2 iss2 where
    a2: "apply_change [] (example_sheet, 0, []) ?d = Inr (sd2, n2, iss2)"
    and i2: "(n2 = 0 + 1 \<and> iss2 = []) \<longleftrightarrow>
             (strip (current_value example_sheet [] 2 (change_address ?d)) = strip (change_before ?d)
              \<or> strip (current_value example_sheet [] 2 (change_address ?d)) = strip (change_after ?d))"
    and w2: "strip (current_value example_sheet [] 2 (change_address ?d)) = strip (change_before ?d)
           \<or> strip (current_value example_sheet [] 2 (change_address ?d)) = strip (change_after ?d) \<longrightarrow>
             current_value sd2 [] 2 (change_address ?d) = change_after ?d"
    by blast
  from i2 eq have "n2 = 1 \<and> iss2 = []" unfolding cur2 by simp
  moreover from w2 eq have "current_value sd2 [] 2 (change_address ?d) = ''New''"
    unfolding cur2 ca by simp
  ultimately have app: "\<exists>sheet_data'. apply_change [] (example_sheet, 0, []) ?d
                  = Inr (sheet_data', 1, [])
          \<and> current_value sheet_data' [] 2 (change_address ?d) = ''New''"
    using a2 by blast
  from h1 h2 cur ne mr mis g1 g2 cur2 eq ca app show ?thesis by blast
qed

text \<open>A request for cell B2, which holds \<open>Old\<close>, with \<open>beforeName\<close> \<open>Old\<close> and a
  \<open>tableIndex\<close> that is not a number: the address parses and the value matches, and the
  iteration raises instead of applying the change.\<close>

theorem apply_aborts_on_bad_table_index:
  "parse_cell_ref (change_address example_bad_table_index) = Inr (''B'', 2)
   \<and> strip (current_value example_sheet [] 2 (change_address example_bad_table_index))
        = strip (change_before example_bad_table_index)
   \<and> isl (apply_change [] (example_sheet, 0, []) example_bad_table_index)"
  by code_simp

text \<open>
  C4. The claim is that an address is matched without regard to the case of its column
  letters. \<open>parse_cell_ref\<close> reads \<open>b2\<close> and \<open>B2\<close> alike, but the lookup compares the
  address attribute with the address as written: on the example sheet, whose cell B2
  holds \<open>Old\<close>, the request to rename \<open>Old\<close> to \<open>New\<close> at \<open>b2\<close> finds no cell, reads the
  empty string, and is recorded as a mismatch that leaves the sheet alone, while the same
  request at \<open>B2\<close> is applied.
\<close>

theorem lower_case_address_misses_cell:
  "parse_cell_ref ''b2'' = parse_cell_ref ''B2''
   \<and> find_cell (children example_sheet ! 0) ''B2'' = Some 1
   \<and> find_cell (children example_sheet ! 0) ''b2'' = None
   \<and> apply_change [] (example_sheet, 0, []) (example_change ''b2'' ''New'') =
       Inr (example_sheet, 0,
            [\<lparr>sheetName = JStr ''Sheet1'', sourceAddress = ''b2'',
              reason = ''Cell value mismatch. expected=\"Old\" actual=\"\"'', tableIndex = 0,
              columnIndex = JNull, target = ''column''\<rparr>])
   \<and> apply_change [] (example_sheet, 0, []) (example_change ''B2'' ''New'') =
       Inr (Element TAG_SHEETDATA [] None
              [Element TAG_ROW [(''r'', ''2'')] None
                 [Element TAG_C [(''r'', ''A2'')] None [Element TAG_V [] (Some ''7'') []],
                  example_cell [(''t'', ''inlineStr'')]
                    [Element TAG_IS [] None [Element TAG_T [] (Some ''New'') []]]]],
            1, [])"
  by code_simp

theorem lower_case_address_misses_cell_witness:
  "apply_change [] (example_sheet, 0, []) (example_change ''b2'' ''New'')
     \<noteq> apply_change [] (example_sheet, 0, []) (example_change ''B2'' ''New'')"
  using lower_case_address_misses_cell by simp

text \<open>
  C7, for a change request whose \<open>tableIndex\<close> and \<open>columnIndex\<close> are integer-coercible.
  Let the request's address parse and let \<open>find_row\<close> and \<open>find_cell\<close> locate its target
  cell, at position \<open>j\<close> of the row at position \<open>i\<close>. If the trimmed value of that cell
  equals the trimmed \<open>afterName\<close>, whatever \<open>beforeName\<close> is, then the iteration counts the
  change as applied and records no issue; the cell is replaced by \<open>write_inline_string\<close> of
  it, which is typed \<open>inlineStr\<close> whatever its type was, has one \<open>is\<close> child holding one \<open>t\<close>
  node with the text \<open>afterName\<close>, and reads back as \<open>afterName\<close>; and the sheet data is
  otherwise as before: the same rows with the same tags and attributes, and in every row
  the same cells, all but the target cell unchanged.
\<close>

theorem rewrite_of_equal_value:
  assumes "int_coercible c" and "parse_cell_ref (change_address c) = Inr (cl, rn)"
    and "find_row sd rn = Some i"
    and "find_cell (children sd ! i) (change_address c) = Some j"
    and "strip (extract_cell_text (children (children sd ! i) ! j) shared) = strip (change_after c)"
  shows "\<exists>sd' cell'. apply_change shared (sd, n, iss) c = Inr (sd', n + 1, iss)
     \<and> cell' = write_inline_string (children (children sd ! i) ! j) (change_after c)
     \<and> sd' = set_children sd ((children sd)
               [i := set_children (children sd ! i) ((children (children sd ! i))[j := cell'])])
     \<and> children (children sd' ! i) ! j = cell'
     \<and> map_of (attrib cell') ''t'' = Some ''inlineStr''
     \<and> children cell' = [Element TAG_IS [] None
          [Element TAG_T (if needs_preserve (change_after c)
                          then [(qname NS_XML ''space'', ''preserve'')] else [])
             (Some (change_after c)) []]]
     \<and> extract_cell_text cell' shared = change_after c
     \<and> length (children sd') = length (children sd)
     \<and> (\<forall>i'<length (children sd). length (children (children sd' ! i')) = length (children (children sd ! i'))
          \<and> tag (children sd' ! i') = tag (children sd ! i')
          \<and> attrib (children sd' ! i') = attrib (children sd ! i')
          \<and> (\<forall>j'<length (children (children sd ! i')). (i', j') \<noteq> (i, j) \<longrightarrow>
               children (children sd' ! i') ! j' = children (children sd ! i') ! j'))"
proof -
  from int_coercibleD[OF assms(1)] obtain ti ci where
    t: "table_index_of c = Inr ti" "column_index_of c = Inr ci" by blast
  have i: "i < length (children sd)"
    using first_index_SomeD[OF assms(3)[unfolded find_row_def]] by simp
  have j: "j < length (children (children sd ! i))"
    using first_index_SomeD[OF assms(4)[unfolded find_cell_def]] by simp
  have cur: "current_value sd shared rn (change_address c)
      = extract_cell_text (children (children sd ! i) ! j) shared"
    by (simp add: current_value_def assms(3,4))
  define cell' where "cell' = write_inline_string (children (children sd ! i) ! j) (change_after c)"
  define sd' where "sd' = set_children sd ((children sd)
               [i := set_children (children sd ! i) ((children (children sd ! i))[j := cell'])])"
  have ap: "apply_change shared (sd, n, iss) c = Inr (sd', n + 1, iss)"
    by (simp add: apply_change_unfold[OF t assms(2)] cur assms(3,4,5) sd'_def cell'_def)
  have frame: "\<forall>i'<length (children sd). length (children (children sd' ! i')) = length (children (children sd ! i'))
          \<and> tag (children sd' ! i') = tag (children sd ! i')
          \<and> attrib (children sd' ! i') = attrib (children sd ! i')
          \<and> (\<forall>j'<length (children (children sd ! i')). (i', j') \<noteq> (i, j) \<longrightarrow>
               children (children sd' ! i') ! j' = children (children sd ! i') ! j')"
    using i j by (auto simp: sd'_def set_children_def nth_list_update)
  have at: "children (children sd' ! i) ! j = cell'"
    using i j by (simp add: sd'_def set_children_def)
  have ty: "map_of (attrib cell') ''t'' = Some ''inlineStr''"
    by (simp add: cell'_def write_inline_string_def update_conv')
  have ch: "children cell' = [Element TAG_IS [] None
          [Element TAG_T (if needs_preserve (change_after c)
                          then [(qname NS_XML ''space'', ''preserve'')] else [])
             (Some (change_after c)) []]]"
    by (simp add: cell'_def write_inline_string_def)
  have ex: "extract_cell_text cell' shared = change_after c"
    by (simp add: cell'_def extract_write_inline)
  have len: "length (children sd') = length (children sd)"
    by (simp add: sd'_def set_children_def)
  from ap cell'_def sd'_def at ty ch ex len frame show ?thesis by blast
qed

theorem rewrite_of_equal_value_witness:
  "int_coercible (example_change ''A2'' ''7'')
   \<and> parse_cell_ref (change_address (example_change ''A2'' ''7'')) = Inr (''A'', 2)
   \<and> find_row example_sheet 2 = Some 0
   \<and> find_cell (children example_sheet ! 0) (change_address (example_change ''A2'' ''7'')) = Some 0
   \<and> strip (extract_cell_text (children (children example_sheet ! 0) ! 0) [])
        = strip (change_after (example_change ''A2'' ''7''))
   \<and> map_of (attrib (children (children example_sheet ! 0) ! 0)) ''t'' = None
   \<and> change_after (example_change ''A2'' ''7'') = ''7''
   \<and> (\<exists>sd'. apply_change [] (example_sheet, 0, []) (example_change ''A2'' ''7'') = Inr (sd', 1, [])
          \<and> map_of (attrib (children (children sd' ! 0) ! 0)) ''t'' = Some ''inlineStr''
          \<and> extract_cell_text (children (children sd' ! 0) ! 0) [] = ''7''
          \<and> children (children sd' ! 0) ! 1 = children (children example_sheet ! 0) ! 1)"
proof -
  let ?c = "example_change ''A2'' ''7''"
  have h1: "int_coercible ?c" by code_simp
  have h2: "parse_cell_ref (change_address ?c) = Inr (''A'', 2)" by code_simp
  have h3: "find_row example_sheet 2 = Some 0" by code_simp
  have h4: "find_cell (children example_sheet ! 0) (change_address ?c) = Some 0" by code_simp
  have h5: "strip (extract_cell_text (children (children example_sheet ! 0) ! 0) [])
      = strip (change_after ?c)" by code_simp
  have ty0: "map_of (attrib (children (children example_sheet ! 0) ! 0)) ''t'' = None" by code_simp
  have ca: "change_after ?c = ''7''" by code_simp
  have l0: "0 < length (children example_sheet)" by code_simp
  have l1: "1 < length (children (children example_sheet ! 0))" by code_simp
  from rewrite_of_equal_value[OF h1 h2 h3 h4 h5, of 0 "[]"]
  obtain sd' cell' where
    a: "apply_change [] (example_sheet, 0, []) ?c = Inr (sd', 0 + 1, [])"
    and at: "children (children sd' ! 0) ! 0 = cell'"
    and ty: "map_of (attrib cell') ''t'' = Some ''inlineStr''"
    and ex: "extract_cell_text cell' [] = change_after ?c"
    and frame: "\<forall>i'<length (children example_sheet).
          length (children (children sd' ! i')) = length (children (children example_sheet ! i'))
          \<and> tag (children sd' ! i') = tag (children example_sheet ! i')
          \<and> attrib (children sd' ! i') = attrib (children example_sheet ! i')
          \<and> (\<forall>j'<length (children (children example_sheet ! i')). (i', j') \<noteq> (0, 0) \<longrightarrow>
               children (children sd' ! i') ! j' = children (children example_sheet ! i') ! j')"
    by blast
  from frame l0 have "\<forall>j'<length (children (children example_sheet ! 0)). (0, j') \<noteq> (0::nat, 0::nat) \<longrightarrow>
               children (children sd' ! 0) ! j' = children (children example_sheet ! 0) ! j'"
    by blast
  with l1 have fr: "children (children sd' ! 0) ! 1 = children (children example_sheet ! 0) ! 1"
    by auto
  have a': "apply_change [] (example_sheet, 0, []) ?c = Inr (sd', 1, [])" using a by simp
  have "apply_change [] (example_sheet, 0, []) ?c = Inr (sd', 1, [])
          \<and> map_of (attrib (children (children sd' ! 0) ! 0)) ''t'' = Some ''inlineStr''
          \<and> extract_cell_text (children (children sd' ! 0) ! 0) [] = ''7''
          \<and> children (children sd' ! 0) ! 1 = children (children example_sheet ! 0) ! 1"
    using a' at ty ex ca fr by simp
  then have "\<exists>sd'. apply_change [] (example_sheet, 0, []) ?c = Inr (sd', 1, [])
          \<and> map_of (attrib (children (children sd' ! 0) ! 0)) ''t'' = Some ''inlineStr''
          \<and> extract_cell_text (children (children sd' ! 0) ! 0) [] = ''7''
          \<and> children (children sd' ! 0) ! 1 = children (children example_sheet ! 0) ! 1"
    by (rule exI)
  with h1 h2 h3 h4 h5 ty0 ca show ?thesis by blast
qed

text \<open>A request for cell B2, which holds \<open>Old\<close>, with \<open>afterName\<close> \<open>Old\<close> and a
  \<open>columnIndex\<close> that is not a number: the target cell is found and its value equals
  \<open>afterName\<close>, and the iteration raises instead of rewriting the cell.\<close>

theorem rewrite_aborts_on_bad_column_index:
  "parse_cell_ref (change_address example_bad_column_index) = Inr (''B'', 2)
   \<and> find_row example_sheet 2 = Some 0
   \<and> find_cell (children example_sheet ! 0) (change_address example_bad_column_index) = Some 1
   \<and> strip (extract_cell_text (children (children example_sheet ! 0) ! 1) [])
        = strip (change_after example_bad_column_index)
   \<and> isl (apply_change [] (example_sheet, 0, []) example_bad_column_index)"
  by code_simp

section \<open>The accounting of outcomes\<close>

lemma apply_change_accounting:
  assumes "int_coercible c"
  shows "\<exists>sd' n' iss'. apply_change shared (sd, n, iss) c = Inr (sd', n', iss')
         \<and> ((n' = n + 1 \<and> iss' = iss) \<or> (n' = n \<and> (\<exists>i. iss' = iss @ [i])))"
proof -
  from int_coercibleD[OF assms] obtain ti ci where
    t: "table_index_of c = Inr ti" "column_index_of c = Inr ci" by blast
  show ?thesis
  proof (cases "parse_cell_ref (change_address c)")
    case (Inl e)
    then obtain m where "e = ValueError m" using parse_cell_ref_InlD by blast
    with Inl t show ?thesis by (simp add: apply_change_def Let_def)
  next
    case (Inr p)
    obtain cl rn where "p = (cl, rn)" by (cases p)
    with Inr have pr: "parse_cell_ref (change_address c) = Inr (cl, rn)" by simp
    from apply_change_outcome[OF assms pr, of shared sd n iss] show ?thesis
      by (metis (no_types, lifting))
  qed
qed

lemma patch_changes_accounting:
  "\<forall>c\<in>set cs. int_coercible c \<Longrightarrow>
   \<exists>sd' n' iss'. patch_changes shared (sd, n, iss) cs = Inr (sd', n', iss')
      \<and> n' + length iss' = n + length iss + length cs"
proof (induction cs arbitrary: sd n iss)
  case Nil
  show ?case by simp
next
  case (Cons c cs)
  from apply_change_accounting[of c shared sd n iss] Cons.prems obtain sd1 n1 iss1 where
    a: "apply_change shared (sd, n, iss) c = Inr (sd1, n1, iss1)"
    and b: "n1 + length iss1 = n + length iss + 1" by auto
  from Cons.IH[of sd1 n1 iss1] Cons.prems obtain sd' n' iss' where
    c: "patch_changes shared (sd1, n1, iss1) cs = Inr (sd', n', iss')"
    and d: "n' + length iss' = n1 + length iss1 + length cs" by auto
  show ?case using a b c d by simp
qed

lemma patch_sheet_xml_accounting:
  assumes "\<forall>c\<in>set cs. int_coercible c"
  shows "case patch_sheet_xml fromstring tostring sheet_bytes shared cs of
           Inl e \<Rightarrow> e = ParseError \<or> e = ValueError ''sheetData not found''
         | Inr (xml, n, iss) \<Rightarrow> n + length iss = length cs"
proof (cases "fromstring sheet_bytes")
  case None
  then show ?thesis by (simp add: patch_sheet_xml_def)
next
  case (Some root)
  show ?thesis
  proof (cases "first_index (\<lambda>e. tag e = TAG_SHEETDATA) (children root)")
    case None
    with Some show ?thesis by (simp add: patch_sheet_xml_def)
  next
    case (Some k)
    from patch_changes_accounting[OF assms, of shared "children root ! k" 0 "[]"]
    obtain sd' n' iss' where
      "patch_changes shared (children root ! k, 0, []) cs = Inr (sd', n', iss')"
      "n' + length iss' = length cs" by auto
    with Some \<open>fromstring sheet_bytes = Some root\<close> show ?thesis
      by (simp add: patch_sheet_xml_def)
  qed
qed

lemma main_issue_ok: "int_coercible c \<Longrightarrow> \<exists>i. main_issue c why = Inr i"
  using int_coercibleD[of c] by (auto simp: main_issue_def)

lemma missing_issues_ok:
  "\<forall>c\<in>set cs. int_coercible c \<Longrightarrow>
     \<exists>iss'. missing_issues cs iss = Inr iss' \<and> length iss' = length iss + length cs"
proof (induction cs arbitrary: iss)
  case Nil
  show ?case by simp
next
  case (Cons c cs)
  have "int_coercible c" using Cons.prems by simp
  from main_issue_ok[OF this, of "''Worksheet xml entry not found in workbook zip''"]
  obtain i where
    i: "main_issue c ''Worksheet xml entry not found in workbook zip'' = Inr i" by blast
  from Cons.IH[of "iss @ [i]"] Cons.prems show ?case by (auto simp: i)
qed

lemma grouped_total_Cons: "grouped_total ((p, cs) # g) = length cs + grouped_total g"
  by (simp add: grouped_total_def)

lemma grouped_total_update:
  "map_of g p = Some cs \<Longrightarrow> grouped_total (AList.update p (cs @ [c]) g) = Suc (grouped_total g)"
  by (induction g) (auto simp: grouped_total_def)

lemma grouped_total_append: "grouped_total (grouped_append g p c) = Suc (grouped_total g)"
proof (cases "map_of g p")
  case None
  then show ?thesis by (simp add: grouped_append_def grouped_total_def)
next
  case (Some cs)
  then show ?thesis by (simp add: grouped_append_def grouped_total_update)
qed

lemma set_update_subset: "set (AList.update k v al) \<subseteq> insert (k, v) (set al)"
  by (induction al) auto

lemma grouped_append_members:
  assumes "\<forall>g\<in>set grouped. \<forall>x\<in>set (snd g). Q x" and "Q c"
  shows "\<forall>g\<in>set (grouped_append grouped p c). \<forall>x\<in>set (snd g). Q x"
proof (cases "map_of grouped p")
  case None
  with assms show ?thesis by (auto simp: grouped_append_def)
next
  case (Some cs)
  then have "(p, cs) \<in> set grouped" by (rule map_of_SomeD)
  with assms have new: "\<forall>x\<in>set (cs @ [c]). Q x" by auto
  have mem: "g = (p, cs @ [c]) \<or> g \<in> set grouped"
    if "g \<in> set (AList.update p (cs @ [c]) grouped)" for g
    using that set_update_subset[of p "cs @ [c]" grouped] by blast
  have "\<forall>x\<in>set (snd g). Q x" if "g \<in> set (AList.update p (cs @ [c]) grouped)" for g
    using mem[OF that] new assms(1) by auto
  then show ?thesis by (simp add: grouped_append_def Some)
qed

lemma group_loop_accounting:
  "\<forall>c\<in>set cs. int_coercible c \<Longrightarrow> \<forall>g\<in>set grouped. \<forall>x\<in>set (snd g). int_coercible x \<Longrightarrow>
   \<exists>g' iss'. group_loop sm cs grouped iss = Inr (g', iss')
      \<and> grouped_total g' + length iss' = grouped_total grouped + length iss + length cs
      \<and> (\<forall>g\<in>set g'. \<forall>x\<in>set (snd g). int_coercible x)"
proof (induction cs arbitrary: grouped iss)
  case Nil
  then show ?case by simp
next
  case (Cons c cs)
  have cc: "int_coercible c" and rest: "\<forall>c\<in>set cs. int_coercible c"
    using Cons.prems(1) by simp_all
  show ?case
  proof (cases "resolve sm c")
    case None
    from main_issue_ok[OF cc, of "''Worksheet not found in workbook''"] obtain i where
      i: "main_issue c ''Worksheet not found in workbook'' = Inr i" by blast
    from Cons.IH[OF rest Cons.prems(2), where iss = "iss @ [i]"] show ?thesis
      by (auto simp: None i)
  next
    case (Some p)
    have m: "\<forall>g\<in>set (grouped_append grouped p c). \<forall>x\<in>set (snd g). int_coercible x"
      by (rule grouped_append_members[OF Cons.prems(2) cc])
    from Cons.IH[OF rest m, where iss = iss] show ?thesis
      by (auto simp: Some grouped_total_append)
  qed
qed

lemma zin_read_Some: "name \<in> set (namelist zin) \<Longrightarrow> \<exists>d. zin_read zin name = Some d"
proof -
  assume a: "name \<in> set (namelist zin)"
  have "name \<in> fst ` set (rev (map (\<lambda>ent. (filename (fst ent), snd ent)) zin))"
    using a by (force simp: namelist_def)
  then have "zin_read zin name \<noteq> None"
    unfolding zin_read_def by (simp only: map_of_eq_None_iff not_not)
  then show ?thesis by auto
qed

lemma sheets_loop_accounting:
  "\<forall>g\<in>set grouped. \<forall>x\<in>set (snd g). int_coercible x \<Longrightarrow>
   (case sheets_loop fromstring tostring zin shared grouped (repl, n, iss) of
      Inl e \<Rightarrow> e = ParseError \<or> e = ValueError ''sheetData not found''
    | Inr (repl', n', iss') \<Rightarrow> n' + length iss' = n + length iss + grouped_total grouped)"
proof (induction grouped arbitrary: repl n iss)
  case Nil
  show ?case by (simp add: grouped_total_def)
next
  case (Cons g grouped)
  obtain p cs where g: "g = (p, cs)" by (cases g)
  have co: "\<forall>c\<in>set cs. int_coercible c" using Cons.prems g by auto
  have rest: "\<forall>g\<in>set grouped. \<forall>x\<in>set (snd g). int_coercible x" using Cons.prems by auto
  show ?case
  proof (cases "p \<in> set (namelist zin)")
    case False
    from missing_issues_ok[OF co, of iss] obtain iss1 where
      i: "missing_issues cs iss = Inr iss1" "length iss1 = length iss + length cs" by auto
    from Cons.IH[OF rest, where repl = repl and n = n and iss = iss1] show ?thesis
      by (simp add: g False i grouped_total_Cons split: sum.splits prod.splits)
  next
    case True
    from zin_read_Some[OF True] obtain d where d: "zin_read zin p = Some d" by auto
    show ?thesis
    proof (cases "patch_sheet_xml fromstring tostring d shared cs")
      case (Inl e)
      with patch_sheet_xml_accounting[OF co, of fromstring tostring d shared] show ?thesis
        by (simp add: g True d)
    next
      case (Inr r)
      obtain xml a si where r: "r = (xml, a, si)" by (cases r)
      from patch_sheet_xml_accounting[OF co, of fromstring tostring d shared] Inr r
      have acc: "a + length si = length cs" by simp
      from Cons.IH[OF rest, where repl = "AList.update p xml repl" and n = "n + a"
          and iss = "iss @ si"] acc
      show ?thesis
        by (simp add: g True d Inr r grouped_total_Cons split: sum.splits prod.splits)
    qed
  qed
qed

lemma main_core_accounting:
  assumes "\<forall>c\<in>set changes. int_coercible c"
  shows "case main_core fromstring tostring zin shared sheet_map changes of
            Inl e \<Rightarrow> e = ParseError \<or> e = ValueError ''sheetData not found''
          | Inr (replacements, applied_count, issues) \<Rightarrow>
              applied_count + length issues = length changes"
proof -
  have e: "\<forall>g\<in>set ([] :: (string \<times> change list) list). \<forall>x\<in>set (snd g). int_coercible x"
    by simp
  from group_loop_accounting[OF assms e, where sm = sheet_map and iss = "[]"] obtain g iss where
    gl: "group_loop sheet_map changes [] [] = Inr (g, iss)"
    and tot: "grouped_total g + length iss = length changes"
    and co: "\<forall>g\<in>set g. \<forall>x\<in>set (snd g). int_coercible x"
    by (auto simp: grouped_total_def)
  from sheets_loop_accounting[OF co, where fromstring = fromstring and tostring = tostring
      and zin = zin and shared = shared and repl = "[]" and n = 0 and iss = iss] tot
  show ?thesis
    by (simp add: main_core_def gl split: sum.splits prod.splits)
qed

text \<open>
  C10. Let every change request of the payload have a \<open>tableIndex\<close> and a \<open>columnIndex\<close> that
  are integer-coercible. Then the run, from the grouping of the requests to the last
  worksheet, either stops because a targeted worksheet does not parse or has no sheet data,
  or ends with an applied count and an issue list whose sizes add up to the number of
  change requests; so does every report that \<open>main_run\<close> returns. One iteration of the
  patch loop never raises on such a request and has exactly one outcome: the applied
  counter goes up by one and the issues stay, or the counter stays and one issue is
  appended.
\<close>

theorem applied_plus_issues_is_total:
  assumes "\<forall>c\<in>set changes. int_coercible c"
  shows "(case main_core fromstring tostring zin shared sheet_map changes of
            Inl e \<Rightarrow> e = ParseError \<or> e = ValueError ''sheetData not found''
          | Inr (replacements, applied_count, issues) \<Rightarrow>
              applied_count + length issues = length changes)
       \<and> (\<forall>fs' applied_count issues.
            main_run fromstring tostring io temp_path fs workbook_path shared sheet_map changes
              = (fs', Inr (applied_count, issues)) \<longrightarrow>
            applied_count + length issues = length changes)
       \<and> (\<forall>c\<in>set changes. \<forall>sd n iss. \<exists>sd' n' iss'.
             apply_change shared (sd, n, iss) c = Inr (sd', n', iss')
             \<and> ((n' = n + 1 \<and> iss' = iss) \<or> (n' = n \<and> (\<exists>i. iss' = iss @ [i]))))"
proof (intro conjI)
  show "case main_core fromstring tostring zin shared sheet_map changes of
            Inl e \<Rightarrow> e = ParseError \<or> e = ValueError ''sheetData not found''
          | Inr (replacements, applied_count, issues) \<Rightarrow>
              applied_count + length issues = length changes"
    by (rule main_core_accounting[OF assms])
next
  show "\<forall>fs' applied_count issues.
            main_run fromstring tostring io temp_path fs workbook_path shared sheet_map changes
              = (fs', Inr (applied_count, issues)) \<longrightarrow>
            applied_count + length issues = length changes"
  proof (intro allI impI)
    fix fs' applied_count issues
    assume run: "main_run fromstring tostring io temp_path fs workbook_path shared sheet_map changes
              = (fs', Inr (applied_count, issues))"
    then obtain z where z: "fs workbook_path = Some z"
      by (cases "fs workbook_path") (auto simp: main_run_def)
    from run z obtain repl where
      "main_core fromstring tostring z shared sheet_map changes = Inr (repl, applied_count, issues)"
      by (auto simp: main_run_def split: sum.splits prod.splits if_splits)
    with main_core_accounting[OF assms, of fromstring tostring z shared sheet_map]
    show "applied_count + length issues = length changes" by simp
  qed
next
  show "\<forall>c\<in>set changes. \<forall>sd n iss. \<exists>sd' n' iss'.
             apply_change shared (sd, n, iss) c = Inr (sd', n', iss')
             \<and> ((n' = n + 1 \<and> iss' = iss) \<or> (n' = n \<and> (\<exists>i. iss' = iss @ [i])))"
    using assms apply_change_accounting by blast
qed

theorem applied_plus_issues_is_total_witness:
  "list_all int_coercible example_changes
   \<and> length example_changes = 3
   \<and> (case main_core example_fromstring example_tostring example_archive [] example_sheet_map
             example_changes of
        Inl e \<Rightarrow> False
      | Inr (replacements, applied_count, issues) \<Rightarrow> applied_count = 1 \<and> length issues = 2)
   \<and> (case main_core example_fromstring example_tostring example_archive [] example_sheet_map
             example_changes of
        Inl e \<Rightarrow> e = ParseError \<or> e = ValueError ''sheetData not found''
      | Inr (replacements, applied_count, issues) \<Rightarrow>
          applied_count + length issues = length example_changes)"
proof -
  have h: "\<forall>c\<in>set example_changes. int_coercible c" by code_simp
  have l: "list_all int_coercible example_changes" using h by (simp only: list_all_iff)
  have n: "length example_changes = 3" by code_simp
  have e: "case main_core example_fromstring example_tostring example_archive [] example_sheet_map
             example_changes of
        Inl e \<Rightarrow> False
      | Inr (replacements, applied_count, issues) \<Rightarrow> applied_count = 1 \<and> length issues = 2"
    by code_simp
  from applied_plus_issues_is_total[OF h, where fromstring = example_fromstring
      and tostring = example_tostring and zin = example_archive and shared = "[]"
      and sheet_map = example_sheet_map]
  have "case main_core example_fromstring example_tostring example_archive [] example_sheet_map
             example_changes of
        Inl e \<Rightarrow> e = ParseError \<or> e = ValueError ''sheetData not found''
      | Inr (replacements, applied_count, issues) \<Rightarrow>
          applied_count + length issues = length example_changes"
    by blast
  with l n e show ?thesis by blast
qed

section \<open>The archive\<close>

lemma grouped_get_Cons:
  "grouped_get ((p, cs) # g) q = (if q = p then cs else grouped_get g q)"
  by (simp add: grouped_get_def)

lemma grouped_append_get:
  "grouped_get (grouped_append g p c) q
     = (if q = p then grouped_get g p @ [c] else grouped_get g q)"
  by (cases "map_of g p"; cases "map_of g q")
     (auto simp: grouped_get_def grouped_append_def update_conv' map_add_def)

lemma grouped_append_keys: "fst ` set (grouped_append g p c) = insert p (fst ` set g)"
  by (cases "map_of g p") (auto simp: grouped_append_def dom_update)

lemma grouped_append_distinct:
  assumes "distinct (map fst g)"
  shows "distinct (map fst (grouped_append g p c))"
proof (cases "map_of g p")
  case None
  then have "p \<notin> fst ` set g" by (simp add: map_of_eq_None_iff)
  then have "p \<notin> set (map fst g)" by simp
  with assms show ?thesis by (simp add: grouped_append_def None)
next
  case (Some cs)
  with assms show ?thesis by (simp add: grouped_append_def distinct_update)
qed

lemma group_loop_groups:
  "group_loop sm cs g iss = Inr (g', iss') \<Longrightarrow> distinct (map fst g) \<Longrightarrow>
     distinct (map fst g')
     \<and> fst ` set g' = fst ` set g \<union> {p. \<exists>c\<in>set cs. resolve sm c = Some p}
     \<and> (\<forall>q. grouped_get g' q = grouped_get g q @ filter (\<lambda>c. resolve sm c = Some q) cs)"
proof (induction cs arbitrary: g iss)
  case Nil
  then show ?case by simp
next
  case (Cons c cs)
  show ?case
  proof (cases "resolve sm c")
    case None
    with Cons.prems(1) obtain i where
      "group_loop sm cs g (iss @ [i]) = Inr (g', iss')"
      by (auto split: sum.splits)
    from Cons.IH[OF this Cons.prems(2)] None show ?thesis by auto
  next
    case (Some p)
    with Cons.prems(1) have "group_loop sm cs (grouped_append g p c) iss = Inr (g', iss')"
      by simp
    from Cons.IH[OF this grouped_append_distinct[OF Cons.prems(2)]] Some show ?thesis
      by (auto simp: grouped_append_keys grouped_append_get)
  qed
qed

lemma sheets_loop_replacements:
  "sheets_loop fromstring tostring zin shared g (repl, n, iss) = Inr (repl', n', iss') \<Longrightarrow>
   distinct (map fst g) \<Longrightarrow>
   (q \<in> fst ` set g \<and> q \<in> set (namelist zin) \<longrightarrow>
      (\<exists>x. patched_entry fromstring tostring zin shared (grouped_get g q) q = Some x
           \<and> map_of repl' q = Some x))
   \<and> (\<not> (q \<in> fst ` set g \<and> q \<in> set (namelist zin)) \<longrightarrow> map_of repl' q = map_of repl q)"
proof (induction g arbitrary: repl n iss)
  case Nil
  then show ?case by simp
next
  case (Cons e g)
  obtain p cs where e: "e = (p, cs)" by (cases e)
  have dg: "distinct (map fst g)" and pn: "p \<notin> fst ` set g"
    using Cons.prems(2) e by auto
  show ?case
  proof (cases "p \<in> set (namelist zin)")
    case False
    with Cons.prems(1) e obtain iss1 where
      "sheets_loop fromstring tostring zin shared g (repl, n, iss1) = Inr (repl', n', iss')"
      by (auto split: sum.splits)
    from Cons.IH[OF this dg] False pn show ?thesis
      by (auto simp: e grouped_get_Cons)
  next
    case True
    from zin_read_Some[OF True] obtain d where d: "zin_read zin p = Some d" by auto
    with Cons.prems(1) e True obtain xml a si where
      ps: "patch_sheet_xml fromstring tostring d shared cs = Inr (xml, a, si)"
      and sl: "sheets_loop fromstring tostring zin shared g
                 (AList.update p xml repl, n + a, iss @ si) = Inr (repl', n', iss')"
      by (auto split: sum.splits)
    have pe: "patched_entry fromstring tostring zin shared cs p = Some xml"
      by (simp add: patched_entry_def d ps)
    from Cons.IH[OF sl dg] pn True pe show ?thesis
      by (auto simp: e grouped_get_Cons update_conv')
  qed
qed

lemma copy_loop_Inr:
  "copy_loop fails zin repl k infos out = (w, Inr u) \<Longrightarrow>
     \<exists>ents. w = out @ ents \<and> map (copy_entry zin repl) infos = map Inr ents"
proof (induction infos arbitrary: k out)
  case Nil
  then show ?case by simp
next
  case (Cons info infos)
  from Cons.prems obtain ent where
    ce: "copy_entry zin repl info = Inr ent"
    and cl: "copy_loop fails zin repl (Suc k) infos (out @ [ent]) = (w, Inr u)"
    by (auto split: if_splits sum.splits)
  from Cons.IH[OF cl] ce show ?case by auto
qed

lemma copy_loop_total:
  "\<forall>m. \<not> fails m \<Longrightarrow> \<forall>info\<in>set infos. filename info \<in> set (namelist zin) \<Longrightarrow>
     \<exists>w. copy_loop fails zin repl k infos out = (w, Inr ())"
proof (induction infos arbitrary: k out)
  case Nil
  then show ?case by simp
next
  case (Cons info infos)
  from zin_read_Some[of "filename info" zin] Cons.prems(2) obtain d where
    "zin_read zin (filename info) = Some d" by auto
  then obtain ent where "copy_entry zin repl info = Inr ent"
    by (simp add: copy_entry_def Let_def)
  with Cons.IH[of "Suc k" "out @ [ent]"] Cons.prems show ?case by auto
qed

lemma copy_zip_body_cases:
  "case copy_zip_body io temp_path fsa workbook_path repl of
     (fsb, Inl e) \<Rightarrow> fsb = fsa \<or> (\<exists>w. fsb = fsa(temp_path \<mapsto> w))
   | (fsb, Inr u) \<Rightarrow>
       \<exists>zin w. fsa workbook_path = Some zin
         \<and> copy_loop (entry_fails io) zin repl 0 (map fst zin) [] = (w, Inr ())
         \<and> fsb = (fsa(temp_path \<mapsto> w))(workbook_path \<mapsto> w, temp_path := None)"
  by (auto simp: copy_zip_body_def split: option.splits prod.splits sum.splits if_splits)

lemma copy_zip_result:
  assumes "temp_path \<noteq> workbook_path" and "fs temp_path = None"
  shows "case copy_zip_with_replacements io temp_path fs workbook_path repl of
     (fs', Inl e) \<Rightarrow> fs' = fs
   | (fs', Inr u) \<Rightarrow>
       \<exists>zin written. fs workbook_path = Some zin
         \<and> map (copy_entry zin repl) (map fst zin) = map Inr written
         \<and> fs' = fs(workbook_path \<mapsto> written)"
proof (cases "temp_create_fails io")
  case True
  then show ?thesis by (simp add: copy_zip_with_replacements_def)
next
  case False
  let ?fs1 = "fs(temp_path \<mapsto> [])"
  obtain fs2 r where b: "copy_zip_body io temp_path ?fs1 workbook_path repl = (fs2, r)"
    by (cases "copy_zip_body io temp_path ?fs1 workbook_path repl")
  have restore: "(?fs1)(temp_path := None) = fs" "(?fs1(temp_path \<mapsto> w))(temp_path := None) = fs" for w
    using assms(2) by (auto simp: fun_eq_iff)
  show ?thesis
  proof (cases r)
    case (Inl e)
    with copy_zip_body_cases[where io = io and temp_path = temp_path and fsa = ?fs1
        and workbook_path = workbook_path and repl = repl] b
    have "fs2 = ?fs1 \<or> (\<exists>w. fs2 = ?fs1(temp_path \<mapsto> w))" by simp
    then show ?thesis
      using restore by (auto simp: copy_zip_with_replacements_def False b Inl)
  next
    case (Inr u)
    with copy_zip_body_cases[where io = io and temp_path = temp_path and fsa = ?fs1
        and workbook_path = workbook_path and repl = repl] b
    obtain zin w where z: "?fs1 workbook_path = Some zin"
      and cl: "copy_loop (entry_fails io) zin repl 0 (map fst zin) [] = (w, Inr ())"
      and f2: "fs2 = (?fs1(temp_path \<mapsto> w))(workbook_path \<mapsto> w, temp_path := None)"
      by auto
    have zin: "fs workbook_path = Some zin" using z assms(1) by (simp split: if_splits)
    from copy_loop_Inr[OF cl] have m: "map (copy_entry zin repl) (map fst zin) = map Inr w"
      by auto
    have f2': "fs2 = fs(workbook_path \<mapsto> w)"
      using assms by (auto simp: f2 fun_eq_iff)
    have "fs2 temp_path = None" using assms by (simp add: f2')
    then show ?thesis
      using zin m f2' by (simp add: copy_zip_with_replacements_def False b Inr)
  qed
qed

lemma copy_zip_succeeds:
  assumes "temp_path \<noteq> workbook_path"
    and "\<not> temp_create_fails io \<and> \<not> open_fails io \<and> (\<forall>k. \<not> entry_fails io k)
            \<and> \<not> close_fails io \<and> \<not> replace_fails io \<and> fs workbook_path \<noteq> None"
  shows "\<exists>fs'. copy_zip_with_replacements io temp_path fs workbook_path repl = (fs', Inr ())"
proof -
  from assms(2) obtain zin where zin: "fs workbook_path = Some zin" by auto
  have "\<forall>info\<in>set (map fst zin). filename info \<in> set (namelist zin)"
    by (auto simp: namelist_def)
  from copy_loop_total[OF _ this, of "entry_fails io" repl 0 "[]"] assms(2) obtain w where
    "copy_loop (entry_fails io) zin repl 0 (map fst zin) [] = (w, Inr ())" by auto
  then show ?thesis
    using assms zin
    by (simp add: copy_zip_with_replacements_def copy_zip_body_def)
qed

text \<open>
  C6. Let the temporary file be a fresh path other than the workbook's. Every run of
  \<open>copy_zip_with_replacements\<close> that raises, at whatever operation (creating the temporary
  file, opening the workbook, reading or writing an entry, closing, or the final rename),
  leaves the file system as it found it: the workbook file is unchanged and no temporary
  file remains. A run that returns has put in the workbook's place the archive that the copy
  loop wrote in full, one entry for every entry of the original, and has left no temporary
  file. When no operation fails and the workbook exists, the run returns.
\<close>

theorem archive_replacement_atomic:
  assumes "temp_path \<noteq> workbook_path" and "fs temp_path = None"
  shows "(case copy_zip_with_replacements io temp_path fs workbook_path repl of
            (fs', Inl e) \<Rightarrow> fs' = fs
          | (fs', Inr u) \<Rightarrow>
              \<exists>zin written. fs workbook_path = Some zin
                \<and> map (copy_entry zin repl) (map fst zin) = map Inr written
                \<and> fs' = fs(workbook_path \<mapsto> written))
       \<and> (\<not> temp_create_fails io \<and> \<not> open_fails io \<and> (\<forall>k. \<not> entry_fails io k)
            \<and> \<not> close_fails io \<and> \<not> replace_fails io \<and> fs workbook_path \<noteq> None \<longrightarrow>
          (\<exists>fs'. copy_zip_with_replacements io temp_path fs workbook_path repl = (fs', Inr ())))"
  using copy_zip_result[where temp_path = temp_path and workbook_path = workbook_path and fs = fs
      and io = io and repl = repl, OF assms]
    copy_zip_succeeds[where temp_path = temp_path and workbook_path = workbook_path and fs = fs
      and io = io and repl = repl, OF assms(1)]
  by blast

theorem archive_replacement_atomic_witness:
  "''tmp.xlsx'' \<noteq> ''book.xlsx'' \<and> example_fs ''tmp.xlsx'' = None
   \<and> (\<exists>fs'. copy_zip_with_replacements no_faults ''tmp.xlsx'' example_fs ''book.xlsx''
               [(''xl/worksheets/sheet1.xml'', ''New'')] = (fs', Inr ()))
   \<and> snd (copy_zip_with_replacements (no_faults\<lparr>replace_fails := True\<rparr>) ''tmp.xlsx''
             example_fs ''book.xlsx'' [(''xl/worksheets/sheet1.xml'', ''New'')]) = Inl OSError
   \<and> fst (copy_zip_with_replacements (no_faults\<lparr>replace_fails := True\<rparr>) ''tmp.xlsx''
             example_fs ''book.xlsx'' [(''xl/worksheets/sheet1.xml'', ''New'')]) = example_fs"
proof -
  let ?repl = "[(''xl/worksheets/sheet1.xml'', ''New'')]"
  let ?bad = "no_faults\<lparr>replace_fails := True\<rparr>"
  have h1: "''tmp.xlsx'' \<noteq> ''book.xlsx''" by simp
  have h2: "example_fs ''tmp.xlsx'' = None" by (simp add: example_fs_def)
  have nf: "\<not> temp_create_fails no_faults \<and> \<not> open_fails no_faults
      \<and> (\<forall>k. \<not> entry_fails no_faults k) \<and> \<not> close_fails no_faults
      \<and> \<not> replace_fails no_faults \<and> example_fs ''book.xlsx'' \<noteq> None"
    by (simp add: no_faults_def example_fs_def)
  have r: "snd (copy_zip_with_replacements ?bad ''tmp.xlsx'' example_fs ''book.xlsx'' ?repl)
      = Inl OSError"
    by code_simp
  from archive_replacement_atomic[where temp_path = "''tmp.xlsx''" and workbook_path = "''book.xlsx''"
      and fs = example_fs and io = no_faults and repl = ?repl, OF h1 h2] nf
  have ok: "\<exists>fs'. copy_zip_with_replacements no_faults ''tmp.xlsx'' example_fs ''book.xlsx'' ?repl
      = (fs', Inr ())"
    by blast
  from archive_replacement_atomic[where temp_path = "''tmp.xlsx''" and workbook_path = "''book.xlsx''"
      and fs = example_fs and io = ?bad and repl = ?repl, OF h1 h2]
  have "case copy_zip_with_replacements ?bad ''tmp.xlsx'' example_fs ''book.xlsx'' ?repl of
            (fs', Inl e) \<Rightarrow> fs' = example_fs
          | (fs', Inr u) \<Rightarrow>
              \<exists>zin written. example_fs ''book.xlsx'' = Some zin
                \<and> map (copy_entry zin ?repl) (map fst zin) = map Inr written
                \<and> fs' = example_fs(''book.xlsx'' \<mapsto> written)"
    by (rule conjunct1)
  with r have "fst (copy_zip_with_replacements ?bad ''tmp.xlsx'' example_fs ''book.xlsx'' ?repl)
      = example_fs"
    by (cases "copy_zip_with_replacements ?bad ''tmp.xlsx'' example_fs ''book.xlsx'' ?repl") auto
  with h1 h2 ok r show ?thesis by blast
qed

lemma zin_read_distinct:
  assumes "distinct (namelist zin)" and "k < length zin"
  shows "zin_read zin (filename (fst (zin ! k))) = Some (snd (zin ! k))"
proof -
  let ?al = "map (\<lambda>ent. (filename (fst ent), snd ent)) zin"
  have "map fst ?al = namelist zin" by (simp add: namelist_def comp_def)
  then have d: "distinct (map fst (rev ?al))"
    using assms(1) by (simp add: rev_map[symmetric] del: rev_map)
  have "(filename (fst (zin ! k)), snd (zin ! k)) \<in> set (rev ?al)"
    using assms(2) by (auto simp: in_set_conv_nth intro!: image_eqI[of _ _ "zin ! k"])
  from map_of_is_SomeI[OF d this] show ?thesis by (simp add: zin_read_def)
qed

lemma writestr_info_carried: "carried_metadata (writestr_info (new_info_of i) d) i"
  by (simp add: carried_metadata_def writestr_info_def Let_def new_info_of_def ZipInfo_def)

text \<open>
  What a run does to the archive. Let a run on a workbook archive whose entry names are
  pairwise distinct end with a report, the temporary file being a fresh path other than
  the workbook's. Then the workbook's archive after the run has the entries of the
  original in the original order, each with its name, time stamp, compression type,
  comment, system field, internal attribute and extra field. The data of an entry is the
  patched markup of that worksheet, made from the original data and the change requests
  that resolve to the entry's name in payload order, exactly when at least one change
  request resolves to the entry's name; the data of every other entry is the original
  data.
\<close>

theorem archive_data_replaced_or_copied:
  assumes run: "main_run fromstring tostring io temp_path fs workbook_path shared sheet_map changes
                  = (fs', Inr report)"
    and zin: "fs workbook_path = Some zin"
    and dist: "distinct (namelist zin)"
    and tw: "temp_path \<noteq> workbook_path" and fresh: "fs temp_path = None"
  shows "\<exists>zout. fs' workbook_path = Some zout \<and> length zout = length zin
     \<and> (\<forall>k<length zin.
          carried_metadata (fst (zout ! k)) (fst (zin ! k))
          \<and> (if \<exists>c\<in>set changes. resolve sheet_map c = Some (filename (fst (zin ! k)))
             then patched_entry fromstring tostring zin shared
                    (filter (\<lambda>c. resolve sheet_map c = Some (filename (fst (zin ! k)))) changes)
                    (filename (fst (zin ! k))) = Some (snd (zout ! k))
             else snd (zout ! k) = snd (zin ! k)))"
proof -
  from run zin obtain repl n iss where
    mc: "main_core fromstring tostring zin shared sheet_map changes = Inr (repl, n, iss)"
    by (auto simp: main_run_def split: sum.splits prod.splits if_splits)
  then obtain g iss0 where
    gl: "group_loop sheet_map changes [] [] = Inr (g, iss0)"
    and sl: "sheets_loop fromstring tostring zin shared g ([], 0, iss0) = Inr (repl, n, iss)"
    by (auto simp: main_core_def split: sum.splits)
  from group_loop_groups[OF gl] have
    dg: "distinct (map fst g)"
    and keys: "fst ` set g = {p. \<exists>c\<in>set changes. resolve sheet_map c = Some p}"
    and get: "\<And>q. grouped_get g q = filter (\<lambda>c. resolve sheet_map c = Some q) changes"
    by (auto simp: grouped_get_def)
  have nm: "filename (fst (zin ! k)) \<in> set (namelist zin)" if "k < length zin" for k
    using that by (auto simp: namelist_def)
  have rp: "(if \<exists>c\<in>set changes. resolve sheet_map c = Some (filename (fst (zin ! k)))
             then \<exists>x. patched_entry fromstring tostring zin shared
                    (filter (\<lambda>c. resolve sheet_map c = Some (filename (fst (zin ! k)))) changes)
                    (filename (fst (zin ! k))) = Some x
                  \<and> map_of repl (filename (fst (zin ! k))) = Some x
             else map_of repl (filename (fst (zin ! k))) = None)" if "k < length zin" for k
    using sheets_loop_replacements[OF sl dg, of "filename (fst (zin ! k))"] nm[OF that] keys
    by (auto simp: get)
  show ?thesis
  proof (cases "repl = []")
    case True
    with run zin mc have "fs' = fs" by (simp add: main_run_def)
    moreover have "\<not> (\<exists>c\<in>set changes. resolve sheet_map c = Some (filename (fst (zin ! k))))"
      if "k < length zin" for k
      using rp[OF that] True by (auto split: if_splits)
    ultimately show ?thesis
      using zin by (auto simp: carried_metadata_def)
  next
    case False
    with run zin mc obtain u where
      cz: "copy_zip_with_replacements io temp_path fs workbook_path repl = (fs', Inr u)"
      by (auto simp: main_run_def split: sum.splits prod.splits)
    from copy_zip_result[where temp_path = temp_path and workbook_path = workbook_path and fs = fs
        and io = io and repl = repl, OF tw fresh] cz zin obtain written where
      m: "map (copy_entry zin repl) (map fst zin) = map Inr written"
      and f: "fs' = fs(workbook_path \<mapsto> written)" by auto
    from m have len: "length written = length zin"
      by (metis length_map)
    have ent: "written ! k =
        (writestr_info (new_info_of (fst (zin ! k)))
           (case map_of repl (filename (fst (zin ! k))) of
              None \<Rightarrow> snd (zin ! k) | Some d \<Rightarrow> d),
         (case map_of repl (filename (fst (zin ! k))) of
            None \<Rightarrow> snd (zin ! k) | Some d \<Rightarrow> d))" if "k < length zin" for k
    proof -
      have "copy_entry zin repl (fst (zin ! k)) = Inr (written ! k)"
        using arg_cong[OF m, of "\<lambda>l. l ! k"] that len by simp
      then show ?thesis
        by (simp add: copy_entry_def Let_def zin_read_distinct[OF dist that])
    qed
    have "carried_metadata (fst (written ! k)) (fst (zin ! k))
          \<and> (if \<exists>c\<in>set changes. resolve sheet_map c = Some (filename (fst (zin ! k)))
             then patched_entry fromstring tostring zin shared
                    (filter (\<lambda>c. resolve sheet_map c = Some (filename (fst (zin ! k)))) changes)
                    (filename (fst (zin ! k))) = Some (snd (written ! k))
             else snd (written ! k) = snd (zin ! k))" if "k < length zin" for k
      using rp[OF that] writestr_info_carried[of "fst (zin ! k)"]
      by (auto simp: ent[OF that] split: if_splits)
    then show ?thesis using f len by auto
  qed
qed

theorem archive_data_replaced_or_copied_witness:
  "snd example_run = Inr (1, [])
   \<and> example_fs ''book.xlsx'' = Some example_archive
   \<and> distinct (namelist example_archive)
   \<and> ''tmp.xlsx'' \<noteq> ''book.xlsx'' \<and> example_fs ''tmp.xlsx'' = None
   \<and> map_option (map snd) (fst example_run ''book.xlsx'') = Some [''book'', ''New'']
   \<and> fst example_run ''tmp.xlsx'' = None
   \<and> (\<exists>zout. fst example_run ''book.xlsx'' = Some zout \<and> length zout = length example_archive
        \<and> (\<forall>k<length example_archive.
              carried_metadata (fst (zout ! k)) (fst (example_archive ! k))
              \<and> (if \<exists>c\<in>set [example_change ''B2'' ''New''].
                       resolve example_sheet_map c = Some (filename (fst (example_archive ! k)))
                 then patched_entry example_fromstring example_tostring example_archive []
                        (filter (\<lambda>c. resolve example_sheet_map c
                                        = Some (filename (fst (example_archive ! k))))
                           [example_change ''B2'' ''New''])
                        (filename (fst (example_archive ! k))) = Some (snd (zout ! k))
                 else snd (zout ! k) = snd (example_archive ! k))))"
proof -
  have s: "snd example_run = Inr (1, [])" by code_simp
  have run: "main_run example_fromstring example_tostring no_faults ''tmp.xlsx'' example_fs
      ''book.xlsx'' [] example_sheet_map [example_change ''B2'' ''New'']
      = (fst example_run, Inr (1, []))"
    unfolding example_run_def[symmetric] using s by (metis prod.collapse)
  have zin: "example_fs ''book.xlsx'' = Some example_archive" by (simp add: example_fs_def)
  have dist: "distinct (namelist example_archive)" by code_simp
  have tw: "''tmp.xlsx'' \<noteq> ''book.xlsx''" by simp
  have fresh: "example_fs ''tmp.xlsx'' = None" by (simp add: example_fs_def)
  have d: "map_option (map snd) (fst example_run ''book.xlsx'') = Some [''book'', ''New'']"
    by code_simp
  have t: "fst example_run ''tmp.xlsx'' = None" by code_simp
  note c = archive_data_replaced_or_copied[where fs = example_fs and temp_path = "''tmp.xlsx''"
      and workbook_path = "''book.xlsx''", OF run zin dist tw fresh]
  from s zin dist tw fresh d t c show ?thesis by blast
qed

text \<open>
  C5. The claim is that the entries a run does not patch reach the rewritten archive
  unmodified, with their compression type, time stamps and metadata flags. The copy loop
  hands the library a header that has the flag bits and the external attribute of the
  original, but \<open>writestr\<close> clears the flag bits and replaces an external attribute of 0
  before it writes the header. On the example workbook, whose entry \<open>xl/workbook.xml\<close> has
  the flag bits 8 and the external attribute 0, the run that patches the worksheet returns
  its report, the header that the loop fills in for \<open>xl/workbook.xml\<close> has the flag bits 8,
  and the archive on disk afterwards has that entry with its data, the flag bits 0 and the
  external attribute \<open>0o600 << 16\<close>.
\<close>

theorem copy_resets_flag_bits:
  "snd example_flagged_run = Inr (1, [])
   \<and> map (\<lambda>ent. (filename (fst ent), flag_bits (fst ent), external_attr (fst ent), snd ent))
        example_flagged_archive
      = [(''xl/workbook.xml'', 8, 0, ''book''), (''xl/worksheets/sheet1.xml'', 0, 0, ''sheet'')]
   \<and> map (\<lambda>ent. (flag_bits (new_info_of (fst ent)), external_attr (new_info_of (fst ent))))
        example_flagged_archive
      = [(8, 0), (0, 0)]
   \<and> map_option
        (map (\<lambda>ent. (filename (fst ent), flag_bits (fst ent), external_attr (fst ent), snd ent)))
        (fst example_flagged_run ''book.xlsx'')
      = Some [(''xl/workbook.xml'', 0, 25165824, ''book''),
              (''xl/worksheets/sheet1.xml'', 0, 25165824, ''New'')]"
  by code_simp

theorem copy_resets_flag_bits_witness:
  "snd example_flagged_run = Inr (1, [])"
  using copy_resets_flag_bits by (rule conjunct1)

end
